theory Spec2Isabelle
  imports Main
begin

section \<open>Values of the Go program\<close>

text \<open>
  The package \<^verbatim>\<open>alice\<close> (file \<^verbatim>\<open>chain.go\<close>) chains middleware constructors around a
  terminal handler. Its code calls function values supplied by the caller, panics on a
  nil terminal and copies slices of constructors; all three are explicit here.

  \<^item> A call of a Go function is a state transformer over the caller's state \<open>'s\<close>
    that returns a value or panics: \<open>'s \<Rightarrow> (error + 'a) \<times> 's\<close>.
  \<^item> A value of a function type or of an interface type may be nil: it is an
    \<open>option\<close>, \<open>None\<close> being nil.
  \<^item> A slice is a header (array, offset, length, capacity) into a heap of arrays, so
    that two slices may share an array.
\<close>

text \<open>
  \<^verbatim>\<open>context.Context\<close> of the imported package: the two root contexts and a derived
  one. \<^verbatim>\<open>context.TODO()\<close> returns the root context \<open>TODO\<close>.
\<close>

datatype Context = Background | TODO | WithValue Context string string

definition context_TODO :: Context where
  "context_TODO = TODO"

text \<open>
  What a panic carries: the value given to \<^verbatim>\<open>panic\<close>, or one of the run-time errors
  of Go (a call through nil, an index out of range).
\<close>

datatype error = Panic string | NilDereference | IndexOutOfRange

type_synonym ('s, 'a) go = "'s \<Rightarrow> (error + 'a) \<times> 's"

text \<open>
  \<^verbatim>\<open>type CtxHandlerFunc func(context.Context, http.ResponseWriter, *http.Request)\<close>:
  a function value, nil or a function.
\<close>

type_synonym ('w, 'r, 's) CtxHandlerFunc = "(Context \<Rightarrow> 'w \<Rightarrow> 'r \<Rightarrow> ('s, unit) go) option"

text \<open>
  \<^verbatim>\<open>type CtxHandler interface { ServeHTTP(context.Context, http.ResponseWriter, *http.Request) }\<close>:
  the nil interface value, or a value with its method \<^verbatim>\<open>ServeHTTP\<close>.
\<close>

type_synonym ('w, 'r, 's) CtxHandler = "(Context \<Rightarrow> 'w \<Rightarrow> 'r \<Rightarrow> ('s, unit) go) option"

text \<open>\<^verbatim>\<open>type Constructor func(context.Context, CtxHandler) CtxHandler\<close>\<close>

type_synonym ('w, 'r, 's) Constructor =
  "(Context \<Rightarrow> ('w, 'r, 's) CtxHandler \<Rightarrow> ('s, ('w, 'r, 's) CtxHandler) go) option"

text \<open>
  \<^verbatim>\<open>http.HandlerFunc\<close> (a function value) and \<^verbatim>\<open>http.Handler\<close> (an interface with the
  method \<^verbatim>\<open>ServeHTTP(w, r)\<close>) of the imported package \<^verbatim>\<open>net/http\<close>.
\<close>

type_synonym ('w, 'r, 's) http_HandlerFunc = "('w \<Rightarrow> 'r \<Rightarrow> ('s, unit) go) option"

type_synonym ('w, 'r, 's) http_Handler = "('w \<Rightarrow> 'r \<Rightarrow> ('s, unit) go) option"

section \<open>Slices and their arrays\<close>

text \<open>
  A slice header. \<open>array\<close> is the address of the underlying array (\<open>None\<close> for the nil
  slice), \<open>offset\<close> the index in it of the slice's first element.
\<close>

record slice =
  array :: "nat option"
  offset :: nat
  len :: nat
  cap :: nat

text \<open>
  The heap of arrays: the array at address \<open>a\<close> is \<open>arrays h ! a\<close>, and a new array gets
  the address \<open>length (arrays h)\<close>. \<open>growslice\<close> is the capacity the run time proposes
  when \<^verbatim>\<open>append\<close> must reallocate (from the old capacity and the length needed); the
  language fixes only that the new array is large enough.
\<close>

record 'a heap =
  arrays :: "'a list list"
  growslice :: "nat \<Rightarrow> nat \<Rightarrow> nat"

definition nil_slice :: slice where
  "nil_slice = \<lparr>array = None, offset = 0, len = 0, cap = 0\<rparr>"

text \<open>
  A slice header is valid in a heap when it points into an allocated array and its
  capacity does not run past the array's end. Go only ever produces valid slices.
\<close>

definition valid_slice :: "'a heap \<Rightarrow> slice \<Rightarrow> bool" where
  "valid_slice h s =
     (case array s of
        None \<Rightarrow> len s = 0 \<and> cap s = 0
      | Some a \<Rightarrow> a < length (arrays h) \<and> len s \<le> cap s \<and>
                  offset s + cap s \<le> length (arrays h ! a))"

text \<open>The elements \<^verbatim>\<open>s[0], ..., s[len(s)-1]\<close> of a slice.\<close>

definition slice_elems :: "'a heap \<Rightarrow> slice \<Rightarrow> 'a list" where
  "slice_elems h s =
     (case array s of
        None \<Rightarrow> []
      | Some a \<Rightarrow> if a < length (arrays h)
                  then take (len s) (drop (offset s) (arrays h ! a)) else [])"

text \<open>The index expression \<^verbatim>\<open>s[i]\<close>: a run-time panic outside \<open>0 \<le> i < len(s)\<close>.\<close>

definition slice_index :: "'a heap \<Rightarrow> slice \<Rightarrow> int \<Rightarrow> error + 'a" where
  "slice_index h s i =
     (if 0 \<le> i \<and> i < int (len s)
      then (case array s of
              None \<Rightarrow> Inl NilDereference
            | Some a \<Rightarrow> Inr (arrays h ! a ! (offset s + nat i)))
      else Inl IndexOutOfRange)"

text \<open>The assignment \<^verbatim>\<open>s[i] = v\<close>: it writes into the underlying array.\<close>

definition slice_assign :: "'a heap \<Rightarrow> slice \<Rightarrow> int \<Rightarrow> 'a \<Rightarrow> error + 'a heap" where
  "slice_assign h s i v =
     (if 0 \<le> i \<and> i < int (len s)
      then (case array s of
              None \<Rightarrow> Inl NilDereference
            | Some a \<Rightarrow>
                Inr (h\<lparr>arrays := (arrays h)[a := (arrays h ! a)[offset s + nat i := v]]\<rparr>))
      else Inl IndexOutOfRange)"

text \<open>Assignments \<^verbatim>\<open>s[i] = v\<close> made one after the other; the first panic ends them.\<close>

fun slice_assigns :: "'a heap \<Rightarrow> slice \<Rightarrow> (int \<times> 'a) list \<Rightarrow> error + 'a heap" where
  "slice_assigns h s [] = Inr h"
| "slice_assigns h s (iv # ivs) =
     (case slice_assign h s (fst iv) (snd iv) of
        Inl e \<Rightarrow> Inl e
      | Inr h' \<Rightarrow> slice_assigns h' s ivs)"

text \<open>Overwriting the cells \<open>k, k + 1, ...\<close> of an array with the list \<open>ys\<close>.\<close>

definition write_at :: "'a list \<Rightarrow> nat \<Rightarrow> 'a list \<Rightarrow> 'a list" where
  "write_at xs k ys = take k xs @ ys @ drop (k + length ys) xs"

text \<open>\<^verbatim>\<open>make([]T, n)\<close>: a new array of \<open>n\<close> zero values, and the slice of all of it.\<close>

definition slice_make :: "nat \<Rightarrow> 'a \<Rightarrow> 'a heap \<Rightarrow> slice \<times> 'a heap" where
  "slice_make n zero h =
     (\<lparr>array = Some (length (arrays h)), offset = 0, len = n, cap = n\<rparr>,
      h\<lparr>arrays := arrays h @ [replicate n zero]\<rparr>)"

text \<open>
  \<^verbatim>\<open>copy(dst, src)\<close>: copies \<open>min(len(dst), len(src))\<close> elements into the array of
  \<open>dst\<close> and returns their number.
\<close>

definition slice_copy :: "slice \<Rightarrow> slice \<Rightarrow> 'a heap \<Rightarrow> nat \<times> 'a heap" where
  "slice_copy dst src h =
     (let n = min (len dst) (len src);
          xs = take n (slice_elems h src)
      in case array dst of
           None \<Rightarrow> (n, h)
         | Some a \<Rightarrow>
             (n, h\<lparr>arrays := (arrays h)[a := write_at (arrays h ! a) (offset dst) xs]\<rparr>))"

text \<open>
  \<^verbatim>\<open>append(s, xs...)\<close>, \<open>xs\<close> being the elements appended. Within the capacity of \<open>s\<close>
  the elements are written into the array of \<open>s\<close>, in place; beyond it a new array is
  allocated, of a capacity that is the length needed at least, and \<open>s\<close> is copied into it.
\<close>

definition slice_append :: "slice \<Rightarrow> 'a list \<Rightarrow> 'a \<Rightarrow> 'a heap \<Rightarrow> slice \<times> 'a heap" where
  "slice_append s xs zero h =
     (let n = len s + length xs in
      if n \<le> cap s
      then (case array s of
              None \<Rightarrow> (s, h)
            | Some a \<Rightarrow>
                (s\<lparr>len := n\<rparr>,
                 h\<lparr>arrays := (arrays h)[a := write_at (arrays h ! a) (offset s + len s) xs]\<rparr>))
      else (let newcap = max n (growslice h (cap s) n) in
            (\<lparr>array = Some (length (arrays h)), offset = 0, len = n, cap = newcap\<rparr>,
             h\<lparr>arrays := arrays h @ [slice_elems h s @ xs @ replicate (newcap - n) zero]\<rparr>)))"

text \<open>
  The slice a call \<^verbatim>\<open>f(x1, ..., xn)\<close> of a variadic function passes: nil when there is
  no argument, and a slice of a new array holding the arguments otherwise. A call
  \<^verbatim>\<open>f(s...)\<close> passes the slice \<open>s\<close> itself.
\<close>

definition variadic :: "'a list \<Rightarrow> 'a heap \<Rightarrow> slice \<times> 'a heap" where
  "variadic xs h =
     (if xs = [] then (nil_slice, h)
      else (\<lparr>array = Some (length (arrays h)), offset = 0, len = length xs, cap = length xs\<rparr>,
            h\<lparr>arrays := arrays h @ [xs]\<rparr>))"

section \<open>Chains\<close>

text \<open>\<^verbatim>\<open>type Chain struct { constructors []Constructor }\<close>\<close>

record Chain =
  constructors :: slice

text \<open>
  \<^verbatim>\<open>func New(constructors ...Constructor) Chain\<close>: appends the given constructors to
  the nil slice of a new Chain.
\<close>

definition New :: "slice \<Rightarrow> 'a option heap \<Rightarrow> Chain \<times> 'a option heap" where
  "New cs h =
     (let c = \<lparr>constructors = nil_slice\<rparr>;
          (s, h') = slice_append (constructors c) (slice_elems h cs) None h
      in (c\<lparr>constructors := s\<rparr>, h'))"

text \<open>
  \<^verbatim>\<open>func (c Chain) Append(constructors ...Constructor) Chain\<close>: makes a slice of the
  receiver's length, copies the receiver's constructors into it, appends the given ones
  and passes the result to \<open>New\<close>.
\<close>

definition Append :: "Chain \<Rightarrow> slice \<Rightarrow> 'a option heap \<Rightarrow> Chain \<times> 'a option heap" where
  "Append c cs h =
     (let (newCons, h1) = slice_make (len (constructors c)) None h;
          (n, h2) = slice_copy newCons (constructors c) h1;
          (newCons', h3) = slice_append newCons (slice_elems h2 cs) None h2
      in New newCons' h3)"

section \<open>Handlers\<close>

text \<open>
  \<^verbatim>\<open>func (f CtxHandlerFunc) ServeHTTP(ctx, w, r) { f(ctx, w, r) }\<close>: calling a nil
  function panics.
\<close>

definition CtxHandlerFunc_ServeHTTP ::
  "('w, 'r, 's) CtxHandlerFunc \<Rightarrow> Context \<Rightarrow> 'w \<Rightarrow> 'r \<Rightarrow> ('s, unit) go" where
  "CtxHandlerFunc_ServeHTTP f ctx w r s =
     (case f of None \<Rightarrow> (Inl NilDereference, s) | Some g \<Rightarrow> g ctx w r s)"

text \<open>
  The conversion \<^verbatim>\<open>CtxHandlerFunc(fn)\<close> used as a \<^verbatim>\<open>CtxHandler\<close>: an interface value
  that is not nil (also when \<open>fn\<close> is), with the method above.
\<close>

definition CtxHandlerFunc_as_CtxHandler ::
  "('w, 'r, 's) CtxHandlerFunc \<Rightarrow> ('w, 'r, 's) CtxHandler" where
  "CtxHandlerFunc_as_CtxHandler fn = Some (CtxHandlerFunc_ServeHTTP fn)"

text \<open>The method call \<^verbatim>\<open>fn.ServeHTTP(ctx, w, r)\<close> on an interface value.\<close>

definition CtxHandler_ServeHTTP ::
  "('w, 'r, 's) CtxHandler \<Rightarrow> Context \<Rightarrow> 'w \<Rightarrow> 'r \<Rightarrow> ('s, unit) go" where
  "CtxHandler_ServeHTTP fn ctx w r s =
     (case fn of None \<Rightarrow> (Inl NilDereference, s) | Some m \<Rightarrow> m ctx w r s)"

text \<open>
  \<^verbatim>\<open>func CtxHandlerToHandlerFunc(ctx, fn) http.HandlerFunc\<close>: the closure
  \<^verbatim>\<open>func(w, r) { fn.ServeHTTP(ctx, w, r) }\<close>.
\<close>

definition CtxHandlerToHandlerFunc ::
  "Context \<Rightarrow> ('w, 'r, 's) CtxHandler \<Rightarrow> ('w, 'r, 's) http_HandlerFunc" where
  "CtxHandlerToHandlerFunc ctx fn = Some (\<lambda>w r. CtxHandler_ServeHTTP fn ctx w r)"

text \<open>
  \<^verbatim>\<open>net/http\<close>: \<^verbatim>\<open>func (f HandlerFunc) ServeHTTP(w, r) { f(w, r) }\<close>, the conversion
  \<^verbatim>\<open>http.HandlerFunc(f)\<close> used as an \<^verbatim>\<open>http.Handler\<close>, and the method call on an
  \<^verbatim>\<open>http.Handler\<close>.
\<close>

definition http_HandlerFunc_ServeHTTP ::
  "('w, 'r, 's) http_HandlerFunc \<Rightarrow> 'w \<Rightarrow> 'r \<Rightarrow> ('s, unit) go" where
  "http_HandlerFunc_ServeHTTP f w r s =
     (case f of None \<Rightarrow> (Inl NilDereference, s) | Some g \<Rightarrow> g w r s)"

definition http_HandlerFunc :: "('w, 'r, 's) http_HandlerFunc \<Rightarrow> ('w, 'r, 's) http_Handler" where
  "http_HandlerFunc f = Some (http_HandlerFunc_ServeHTTP f)"

definition http_Handler_ServeHTTP ::
  "('w, 'r, 's) http_Handler \<Rightarrow> 'w \<Rightarrow> 'r \<Rightarrow> ('s, unit) go" where
  "http_Handler_ServeHTTP hh w r s =
     (case hh of None \<Rightarrow> (Inl NilDereference, s) | Some m \<Rightarrow> m w r s)"

section \<open>Folding a chain\<close>

text \<open>
  The state a fold runs in: the caller's state \<open>user\<close>, which the constructors read and
  write, and \<open>invocations\<close>, a record of the constructor calls made so far (the index
  called and the context passed), which no constructor can read or write. The record
  is there to state which calls a fold makes; it decides nothing.
\<close>

record 's world =
  user :: 's
  invocations :: "(int \<times> Context) list"

text \<open>
  The call \<^verbatim>\<open>c.constructors[i](ctx, final)\<close> once the function value \<open>k\<close> has been
  read: a panic when \<open>k\<close> is nil, and otherwise the call, recorded.
\<close>

definition invoke ::
  "int \<Rightarrow> ('w, 'r, 's) Constructor \<Rightarrow> Context \<Rightarrow> ('w, 'r, 's) CtxHandler \<Rightarrow>
   's world \<Rightarrow> (error + ('w, 'r, 's) CtxHandler) \<times> 's world" where
  "invoke i k ctx final w =
     (case k of
        None \<Rightarrow> (Inl NilDereference, w)
      | Some f \<Rightarrow>
          (case f ctx final (user w) of
             (res, u) \<Rightarrow> (res, \<lparr>user = u, invocations = invocations w @ [(i, ctx)]\<rparr>)))"

text \<open>
  The loop of \<open>Then\<close> and \<open>ThenContext\<close>, from the index \<open>i\<close> down:
  \<^verbatim>\<open>for i := len(c.constructors) - 1; i >= 0; i-- { final = c.constructors[i](ctx, final) }\<close>
\<close>

function then_loop ::
  "('w, 'r, 's) Constructor heap \<Rightarrow> slice \<Rightarrow> Context \<Rightarrow> int \<Rightarrow> ('w, 'r, 's) CtxHandler \<Rightarrow>
   's world \<Rightarrow> (error + ('w, 'r, 's) CtxHandler) \<times> 's world" where
  "then_loop h cs ctx i final w =
     (if i \<ge> 0
      then (case slice_index h cs i of
              Inl e \<Rightarrow> (Inl e, w)
            | Inr k \<Rightarrow>
                (case invoke i k ctx final w of
                   (Inl e, w') \<Rightarrow> (Inl e, w')
                 | (Inr final', w') \<Rightarrow> then_loop h cs ctx (i - 1) final' w'))
      else (Inr final, w))"
  by pat_completeness auto
termination
  by (relation "measure (\<lambda>(h, cs, ctx, i, final, w). nat (i + 1))") auto

text \<open>
  \<^verbatim>\<open>func (c Chain) Then(h CtxHandler) (wrappedFinal http.Handler)\<close>
\<close>

definition Then ::
  "('w, 'r, 's) Constructor heap \<Rightarrow> Chain \<Rightarrow> ('w, 'r, 's) CtxHandler \<Rightarrow>
   's world \<Rightarrow> (error + ('w, 'r, 's) http_Handler) \<times> 's world" where
  "Then hp c h w =
     (let ctx = context_TODO in
      case h of
        None \<Rightarrow> (Inl (Panic ''nil is not allowed''), w)
      | Some _ \<Rightarrow>
          (case then_loop hp (constructors c) ctx (int (len (constructors c)) - 1) h w of
             (Inl e, w') \<Rightarrow> (Inl e, w')
           | (Inr final, w') \<Rightarrow>
               (Inr (http_HandlerFunc (CtxHandlerToHandlerFunc ctx final)), w')))"

text \<open>
  \<^verbatim>\<open>func (c Chain) ThenContext(h CtxHandler) (final CtxHandler)\<close>
\<close>

definition ThenContext ::
  "('w, 'r, 's) Constructor heap \<Rightarrow> Chain \<Rightarrow> ('w, 'r, 's) CtxHandler \<Rightarrow>
   's world \<Rightarrow> (error + ('w, 'r, 's) CtxHandler) \<times> 's world" where
  "ThenContext hp c h w =
     (let ctx = context_TODO in
      case h of
        None \<Rightarrow> (Inl (Panic ''nil is not allowed''), w)
      | Some _ \<Rightarrow> then_loop hp (constructors c) ctx (int (len (constructors c)) - 1) h w)"

text \<open>
  \<^verbatim>\<open>func (c Chain) ThenFuncContext(fn CtxHandlerFunc) (final CtxHandler)\<close>. For a
  function \<open>fn\<close> that is not nil it returns \<^verbatim>\<open>c.ThenContext(CtxHandlerFunc(fn))\<close>. For
  nil the source has \<^verbatim>\<open>return c.Then(nil)\<close>: the value of \<^verbatim>\<open>c.Then(nil)\<close> is an
  \<^verbatim>\<open>http.Handler\<close>, whose method \<^verbatim>\<open>ServeHTTP(w, r)\<close> is not the method
  \<^verbatim>\<open>ServeHTTP(ctx, w, r)\<close> of a \<^verbatim>\<open>CtxHandler\<close>, so Go does not accept it as the result
  \<open>final\<close>. The branch is not well typed and the call has no behaviour, neither a
  result nor a panic: \<open>None\<close>. (\<open>ThenFunc\<close> below returns the same expression as an
  \<^verbatim>\<open>http.Handler\<close>, which is well typed.)
\<close>

definition ThenFuncContext ::
  "('w, 'r, 's) Constructor heap \<Rightarrow> Chain \<Rightarrow> ('w, 'r, 's) CtxHandlerFunc \<Rightarrow>
   's world \<Rightarrow> ((error + ('w, 'r, 's) CtxHandler) \<times> 's world) option" where
  "ThenFuncContext hp c fn w =
     (if fn = None then None
      else Some (ThenContext hp c (CtxHandlerFunc_as_CtxHandler fn) w))"

text \<open>
  \<^verbatim>\<open>func (c Chain) ThenFunc(fn CtxHandlerFunc) http.Handler\<close>
\<close>

definition ThenFunc ::
  "('w, 'r, 's) Constructor heap \<Rightarrow> Chain \<Rightarrow> ('w, 'r, 's) CtxHandlerFunc \<Rightarrow>
   's world \<Rightarrow> (error + ('w, 'r, 's) http_Handler) \<times> 's world" where
  "ThenFunc hp c fn w =
     (if fn = None then Then hp c None w
      else Then hp c (CtxHandlerFunc_as_CtxHandler fn) w)"

section \<open>What a fold is compared with\<close>

text \<open>
  What the caller observes of a fold: the result (or the panic) and the caller's state.
\<close>

definition outcome :: "(error + 'a) \<times> 's world \<Rightarrow> (error + 'a) \<times> 's" where
  "outcome r = (fst r, user (snd r))"

text \<open>The constructor calls recorded between the states \<open>w\<close> and \<open>w'\<close>.\<close>

definition new_invocations :: "'s world \<Rightarrow> 's world \<Rightarrow> (int \<times> Context) list" where
  "new_invocations w w' = drop (length (invocations w)) (invocations w')"

text \<open>A call \<^verbatim>\<open>k(ctx, next)\<close> of a constructor value written by hand, outside any fold.\<close>

definition call_constructor ::
  "('w, 'r, 's) Constructor \<Rightarrow> Context \<Rightarrow> ('w, 'r, 's) CtxHandler \<Rightarrow>
   ('s, ('w, 'r, 's) CtxHandler) go" where
  "call_constructor k ctx next s =
     (case k of None \<Rightarrow> (Inl NilDereference, s) | Some f \<Rightarrow> f ctx next s)"

text \<open>
  The specification's nested expression \<^verbatim>\<open>c1(ctx, c2(ctx, ... cn(ctx, h)))\<close>, as Go
  evaluates it: the argument first, then the call; a panic of the argument is the
  panic of the whole.
\<close>

fun spec_nested ::
  "Context \<Rightarrow> ('w, 'r, 's) Constructor list \<Rightarrow> ('w, 'r, 's) CtxHandler \<Rightarrow>
   ('s, ('w, 'r, 's) CtxHandler) go" where
  "spec_nested ctx [] h s = (Inr h, s)"
| "spec_nested ctx (k # ks) h s =
     (case spec_nested ctx ks h s of
        (Inl e, s') \<Rightarrow> (Inl e, s')
      | (Inr inner, s') \<Rightarrow> call_constructor k ctx inner s')"

text \<open>
  The request/response adapter of \<open>Then\<close> around the result of a fold that returned.
\<close>

definition adapted ::
  "Context \<Rightarrow> (error + ('w, 'r, 's) CtxHandler) \<times> 'x \<Rightarrow> (error + ('w, 'r, 's) http_Handler) \<times> 'x" where
  "adapted ctx r =
     (case r of
        (Inl e, x) \<Rightarrow> (Inl e, x)
      | (Inr final, x) \<Rightarrow> (Inr (http_HandlerFunc (CtxHandlerToHandlerFunc ctx final)), x))"

text \<open>
  The elements of a list with their indices, and a sequence of recorded calls made one
  after the other, each on the result of the one before: the loop of a fold, read off
  the list of the chain's constructors.
\<close>

definition indexed :: "'a list \<Rightarrow> (int \<times> 'a) list" where
  "indexed xs = zip (map int [0..<length xs]) xs"

fun calls ::
  "Context \<Rightarrow> (int \<times> ('w, 'r, 's) Constructor) list \<Rightarrow> ('w, 'r, 's) CtxHandler \<Rightarrow>
   's world \<Rightarrow> (error + ('w, 'r, 's) CtxHandler) \<times> 's world" where
  "calls ctx [] final w = (Inr final, w)"
| "calls ctx (ik # iks) final w =
     (case invoke (fst ik) (snd ik) ctx final w of
        (Inl e, w') \<Rightarrow> (Inl e, w')
      | (Inr final', w') \<Rightarrow> calls ctx iks final' w')"

text \<open>
  Middleware that calls the following handler, the kind the comment of \<open>Then\<close> assumes
  (\<^verbatim>\<open>assuming every middleware calls the following one\<close>): the constructor changes the
  state by \<open>build\<close> when it is called, and the handler it returns changes the state by
  \<open>pre\<close> and then serves the request with \<open>next\<close>.
\<close>

definition middleware ::
  "('s \<Rightarrow> 's) \<Rightarrow> (Context \<Rightarrow> 'w \<Rightarrow> 'r \<Rightarrow> 's \<Rightarrow> 's) \<Rightarrow> ('w, 'r, 's) Constructor" where
  "middleware build pre =
     Some (\<lambda>ctx next s.
       (Inr (Some (\<lambda>ctx' w r s'. CtxHandler_ServeHTTP next ctx' w r (pre ctx' w r s'))),
        build s))"

text \<open>
  The mock middleware and terminal of the specification's scenarios, over a log of
  names: the middleware appends its name and calls the next handler, the terminal
  appends its name and stops.
\<close>

definition logging :: "string \<Rightarrow> ('w, 'r, string list) Constructor" where
  "logging name = middleware (\<lambda>s. s) (\<lambda>ctx w r s. s @ [name])"

definition endpoint :: "string \<Rightarrow> ('w, 'r, string list) CtxHandler" where
  "endpoint name = Some (\<lambda>ctx w r s. (Inr (), s @ [name]))"

text \<open>
  A constructor with its context argument fixed: whatever context it is called with,
  it runs as the constructor \<open>k\<close> called with \<open>ctx\<close>.
\<close>

definition at_context :: "Context \<Rightarrow> ('w, 'r, 's) Constructor \<Rightarrow> ('w, 'r, 's) Constructor" where
  "at_context ctx k = (case k of None \<Rightarrow> None | Some f \<Rightarrow> Some (\<lambda>ctx' next. f ctx next))"

text \<open>
  Probes for the context, over a log of contexts: a constructor that appends the
  context it is called with and adds no layer, and a terminal that appends the context
  it is called with.
\<close>

definition spy :: "('w, 'r, Context list) Constructor" where
  "spy = Some (\<lambda>ctx next s. (Inr next, s @ [ctx]))"

definition spy_endpoint :: "('w, 'r, Context list) CtxHandler" where
  "spy_endpoint = Some (\<lambda>ctx w r s. (Inr (), s @ [ctx]))"



text \<open>The heap before anything is allocated; its run time proposes the length needed.\<close>

definition empty_heap :: "'a heap" where
  "empty_heap = \<lparr>arrays = [], growslice = (\<lambda>old n. n)\<rparr>"

section \<open>Scenarios\<close>

text \<open>
  The specification's scenarios, run from the empty heap. Each constant is the result
  of one call: the slice of a variadic call's arguments with the heap that holds it, or
  the chain a call returns with the heap it leaves.
\<close>

text \<open>\<^verbatim>\<open>New(Logger, Auth)\<close>: the argument slice, then the chain.\<close>

definition logger_auth_args :: "slice \<times> (unit, unit, string list) Constructor heap" where
  "logger_auth_args = variadic [logging ''Logger'', logging ''Auth''] empty_heap"

definition logger_auth :: "Chain \<times> (unit, unit, string list) Constructor heap" where
  "logger_auth = New (fst logger_auth_args) (snd logger_auth_args)"

text \<open>\<^verbatim>\<open>New()\<close> on the empty heap: the chain of no constructors.\<close>

definition no_constructors :: "Chain \<times> (unit, unit, string list) Constructor heap" where
  "no_constructors = New nil_slice empty_heap"

text \<open>\<^verbatim>\<open>base := New(A); ext := base.Append(B)\<close>\<close>

definition base_a_args :: "slice \<times> (unit, unit, string list) Constructor heap" where
  "base_a_args = variadic [logging ''A''] empty_heap"

definition base_a :: "Chain \<times> (unit, unit, string list) Constructor heap" where
  "base_a = New (fst base_a_args) (snd base_a_args)"

definition ext_b_args :: "slice \<times> (unit, unit, string list) Constructor heap" where
  "ext_b_args = variadic [logging ''B''] (snd base_a)"

definition ext_b :: "Chain \<times> (unit, unit, string list) Constructor heap" where
  "ext_b = Append (fst base_a) (fst ext_b_args) (snd ext_b_args)"

text \<open>
  Two routes from one base: \<^verbatim>\<open>stdStack.Append(A)\<close> and then \<^verbatim>\<open>stdStack.Append(B)\<close>,
  \<^verbatim>\<open>stdStack\<close> being the chain of \<open>logger_auth\<close>.
\<close>

definition route_a_args :: "slice \<times> (unit, unit, string list) Constructor heap" where
  "route_a_args = variadic [logging ''A''] (snd logger_auth)"

definition route_a :: "Chain \<times> (unit, unit, string list) Constructor heap" where
  "route_a = Append (fst logger_auth) (fst route_a_args) (snd route_a_args)"

definition route_b_args :: "slice \<times> (unit, unit, string list) Constructor heap" where
  "route_b_args = variadic [logging ''B''] (snd route_a)"

definition route_b :: "Chain \<times> (unit, unit, string list) Constructor heap" where
  "route_b = Append (fst logger_auth) (fst route_b_args) (snd route_b_args)"

text \<open>
  \<^verbatim>\<open>New(cs...)\<close> and \<^verbatim>\<open>stdStack.Append(cs...)\<close> of the slice \<open>cs\<close> that
  \<open>logger_auth_args\<close> holds, which the caller keeps and may write to.
\<close>

definition copy_new :: "Chain \<times> (unit, unit, string list) Constructor heap" where
  "copy_new = New (fst logger_auth_args) (snd logger_auth)"

definition copy_append :: "Chain \<times> (unit, unit, string list) Constructor heap" where
  "copy_append = Append (fst logger_auth) (fst logger_auth_args) (snd logger_auth)"

text \<open>\<^verbatim>\<open>New(spy, spy)\<close>, \<^verbatim>\<open>New(A, boom, C)\<close> and \<^verbatim>\<open>New(detour)\<close>.\<close>

definition spies_args :: "slice \<times> (unit, unit, Context list) Constructor heap" where
  "spies_args = variadic [spy, spy] empty_heap"

definition spies :: "Chain \<times> (unit, unit, Context list) Constructor heap" where
  "spies = New (fst spies_args) (snd spies_args)"





section \<open>Lemmas on slices\<close>

lemma length_slice_elems: "valid_slice h cs \<Longrightarrow> length (slice_elems h cs) = len cs"
  by (auto simp: valid_slice_def slice_elems_def split: option.splits)

lemma slice_elems_nil: "slice_elems h nil_slice = []"
  by (simp add: slice_elems_def nil_slice_def)

lemma valid_nil: "valid_slice h nil_slice"
  by (simp add: valid_slice_def nil_slice_def)

lemma slice_index_elems:
  "valid_slice h cs \<Longrightarrow> k < len cs \<Longrightarrow> slice_index h cs (int k) = Inr (slice_elems h cs ! k)"
  by (auto simp: valid_slice_def slice_index_def slice_elems_def split: option.splits)

text \<open>Allocation leaves the slices that exist as they are.\<close>

lemma valid_slice_extend:
  "valid_slice h s \<Longrightarrow> arrays h' = arrays h @ ys \<Longrightarrow> valid_slice h' s"
  by (auto simp: valid_slice_def nth_append split: option.splits)

lemma slice_elems_extend:
  "valid_slice h s \<Longrightarrow> arrays h' = arrays h @ ys \<Longrightarrow> slice_elems h' s = slice_elems h s"
  by (auto simp: valid_slice_def slice_elems_def nth_append split: option.splits)

text \<open>An assignment through a slice leaves the slices of other arrays as they are.\<close>

lemma slice_assign_other:
  assumes "slice_assign h t i v = Inr h2"
    and "array s = None \<or> array s \<noteq> array t"
  shows "slice_elems h2 s = slice_elems h s"
    and "valid_slice h2 s = valid_slice h s"
  using assms
  by (auto simp: slice_assign_def slice_elems_def valid_slice_def
           split: if_splits option.splits)

lemma slice_assign_self:
  assumes "valid_slice h s" "slice_assign h s i v = Inr h2"
  shows "slice_elems h2 s = (slice_elems h s)[nat i := v]"
  using assms
  by (auto simp: slice_assign_def slice_elems_def valid_slice_def drop_update_swap
           take_update_swap split: if_splits option.splits)

lemma slice_assigns_other:
  "slice_assigns h t ivs = Inr h2 \<Longrightarrow> array s = None \<or> array s \<noteq> array t \<Longrightarrow>
   slice_elems h2 s = slice_elems h s \<and> valid_slice h2 s = valid_slice h s"
proof (induction ivs arbitrary: h)
  case Nil
  then show ?case by simp
next
  case (Cons iv ivs)
  then obtain h' where a: "slice_assign h t (fst iv) (snd iv) = Inr h'"
    and r: "slice_assigns h' t ivs = Inr h2"
    by (auto split: sum.splits)
  from slice_assign_other [OF a Cons.prems(2)] Cons.IH [OF r Cons.prems(2)]
  show ?case by simp
qed

lemma variadic_props:
  assumes "variadic xs h = (s, h')"
  shows "slice_elems h' s = xs"
    and "valid_slice h' s"
    and "\<exists>ys. arrays h' = arrays h @ ys"
  using assms
  by (auto simp: variadic_def slice_elems_def valid_slice_def nil_slice_def split: if_splits)

lemma variadic_valid: "valid_slice (snd (variadic xs h)) (fst (variadic xs h))"
  by (rule variadic_props(2) [of xs h]) simp

lemma variadic_elems: "slice_elems (snd (variadic xs h)) (fst (variadic xs h)) = xs"
  by (rule variadic_props(1) [of xs h]) simp

lemma variadic_arrays: "xs \<noteq> [] \<Longrightarrow> arrays (snd (variadic xs h)) = arrays h @ [xs]"
  by (simp add: variadic_def)

lemma slice_append_full:
  assumes "valid_slice h s" "len s = cap s" "slice_append s xs z h = (s', h')"
  shows "slice_elems h' s' = slice_elems h s @ xs"
    and "valid_slice h' s'"
    and "\<exists>zs. arrays h' = arrays h @ zs"
    and "growslice h' = growslice h"
proof -
  have le: "length (slice_elems h s) = len s" using assms(1) by (rule length_slice_elems)
  show "slice_elems h' s' = slice_elems h s @ xs"
  proof (cases "xs = []")
    case True
    with assms show ?thesis
      by (auto simp: slice_append_def Let_def write_at_def slice_elems_def valid_slice_def
               split: option.splits)
  next
    case False
    with assms(2,3) le show ?thesis
      by (auto simp: slice_append_def Let_def slice_elems_def [of h'])
  qed
  show "valid_slice h' s'"
    using assms le
    by (cases "xs = []")
       (auto simp: slice_append_def Let_def write_at_def valid_slice_def split: option.splits)
  show "\<exists>zs. arrays h' = arrays h @ zs"
    using assms
    by (cases "xs = []")
       (auto simp: slice_append_def Let_def write_at_def valid_slice_def split: option.splits)
  show "growslice h' = growslice h"
    using assms(3) by (auto simp: slice_append_def Let_def split: if_splits option.splits)
qed

section \<open>Lemmas on New and Append\<close>

lemma New_result:
  "New cs h =
    (let xs = slice_elems h cs; n = length xs; newcap = max n (growslice h 0 n) in
     if xs = [] then (\<lparr>constructors = nil_slice\<rparr>, h)
     else (\<lparr>constructors = \<lparr>array = Some (length (arrays h)), offset = 0, len = n, cap = newcap\<rparr>\<rparr>,
           h\<lparr>arrays := arrays h @ [xs @ replicate (newcap - n) None]\<rparr>))"
  by (simp add: New_def slice_append_def nil_slice_def Let_def slice_elems_def)

lemma New_props:
  assumes "New cs h = (c, h')"
  shows "slice_elems h' (constructors c) = slice_elems h cs"
    and "valid_slice h' (constructors c)"
    and "\<exists>ys. arrays h' = arrays h @ ys"
    and "array (constructors c) = None \<or> array (constructors c) = Some (length (arrays h))"
    and "growslice h' = growslice h"
  using assms
  by (auto simp: New_result Let_def slice_elems_def valid_slice_def nil_slice_def split: if_splits)

lemma Append_props:
  assumes "valid_slice h (constructors b)" "valid_slice h cs" "Append b cs h = (c, h')"
  shows "slice_elems h' (constructors c) = slice_elems h (constructors b) @ slice_elems h cs"
    and "valid_slice h' (constructors c)"
    and "\<exists>ys. arrays h' = arrays h @ ys"
    and "array (constructors c) = None \<or>
         (\<exists>a. array (constructors c) = Some a \<and> length (arrays h) \<le> a)"
    and "growslice h' = growslice h"
proof -
  obtain newCons h1 where mk: "slice_make (len (constructors b)) None h = (newCons, h1)"
    by (cases "slice_make (len (constructors b)) None h")
  obtain n h2 where cp: "slice_copy newCons (constructors b) h1 = (n, h2)"
    by (cases "slice_copy newCons (constructors b) h1")
  obtain newCons' h3 where ap: "slice_append newCons (slice_elems h2 cs) None h2 = (newCons', h3)"
    by (cases "slice_append newCons (slice_elems h2 cs) None h2")
  have nw: "New newCons' h3 = (c, h')"
    using assms(3) by (simp add: Append_def mk cp ap)
  let ?xs = "slice_elems h (constructors b)"
  let ?a = "length (arrays h)"
  have lxs: "length ?xs = len (constructors b)" using assms(1) by (rule length_slice_elems)
  have nc: "newCons = \<lparr>array = Some ?a, offset = 0, len = length ?xs, cap = length ?xs\<rparr>"
    and h1: "arrays h1 = arrays h @ [replicate (length ?xs) None]" and g1: "growslice h1 = growslice h"
    using mk by (auto simp: slice_make_def lxs)
  have e1: "slice_elems h1 (constructors b) = ?xs"
    using assms(1) h1 by (rule slice_elems_extend)
  have h2: "arrays h2 = arrays h @ [?xs]" and g2: "growslice h2 = growslice h"
    using cp by (auto simp: slice_copy_def nc e1 h1 g1 write_at_def Let_def lxs [symmetric])
  have e2: "slice_elems h2 cs = slice_elems h cs"
    using assms(2) h2 by (rule slice_elems_extend)
  have v2: "valid_slice h2 newCons" and en: "slice_elems h2 newCons = ?xs"
    by (auto simp: valid_slice_def slice_elems_def nc h2)
  let ?ys = "slice_elems h cs"
  have lc: "len newCons = cap newCons" by (simp add: nc)
  have e3: "slice_elems h3 newCons' = ?xs @ ?ys" and "\<exists>zs. arrays h3 = arrays h2 @ zs"
    and g3: "growslice h3 = growslice h"
    using slice_append_full [OF v2 lc ap] by (simp_all add: e2 en g2)
  then have "\<exists>zs. arrays h3 = arrays h @ zs" by (auto simp: h2)
  then obtain zs where h3: "arrays h3 = arrays h @ zs" by blast
  from New_props [OF nw] e3 h3 g3
  show "slice_elems h' (constructors c) = slice_elems h (constructors b) @ slice_elems h cs"
    and "valid_slice h' (constructors c)"
    and "\<exists>ys. arrays h' = arrays h @ ys"
    and "array (constructors c) = None \<or>
         (\<exists>a. array (constructors c) = Some a \<and> length (arrays h) \<le> a)"
    and "growslice h' = growslice h"
    by auto
qed

section \<open>Lemmas on the loop of a fold\<close>

declare then_loop.simps [simp del]

lemma indexed_snoc: "indexed (xs @ [x]) = indexed xs @ [(int (length xs), x)]"
  by (simp add: indexed_def)

lemma then_loop_neg: "i < 0 \<Longrightarrow> then_loop h cs ctx i final w = (Inr final, w)"
  by (subst then_loop.simps) simp

lemma then_loop_calls:
  "valid_slice h cs \<Longrightarrow> k \<le> len cs \<Longrightarrow>
   then_loop h cs ctx (int k - 1) final w =
   calls ctx (rev (indexed (take k (slice_elems h cs)))) final w"
proof (induction k arbitrary: final w)
  case 0
  then show ?case by (simp add: then_loop_neg indexed_def)
next
  case (Suc k)
  from Suc.prems have k: "k < len cs" by simp
  have tk: "take (Suc k) (slice_elems h cs) = take k (slice_elems h cs) @ [slice_elems h cs ! k]"
    using k Suc.prems(1) by (simp add: take_Suc_conv_app_nth length_slice_elems)
  have lk: "length (take k (slice_elems h cs)) = k"
    using k Suc.prems(1) by (simp add: length_slice_elems)
  have step: "then_loop h cs ctx (int k) final w =
     (case invoke (int k) (slice_elems h cs ! k) ctx final w of
        (Inl e, w') \<Rightarrow> (Inl e, w')
      | (Inr final', w') \<Rightarrow> then_loop h cs ctx (int k - 1) final' w')"
    by (subst then_loop.simps) (simp add: slice_index_elems [OF Suc.prems(1) k])
  define ys where "ys = take k (slice_elems h cs)"
  have lys: "length ys = k" using lk by (simp add: ys_def)
  have IH: "\<And>f v. then_loop h cs ctx (int k - 1) f v = calls ctx (rev (indexed ys)) f v"
    using Suc.IH [OF Suc.prems(1)] k by (simp add: ys_def)
  have "calls ctx (rev (indexed (take (Suc k) (slice_elems h cs)))) final w =
        calls ctx ((int k, slice_elems h cs ! k) # rev (indexed ys)) final w"
    unfolding tk ys_def [symmetric] by (simp add: indexed_snoc lys)
  also have "\<dots> = then_loop h cs ctx (int k) final w"
    by (simp add: step IH split: prod.splits sum.splits)
  finally show ?case by simp
qed

lemma then_loop_whole:
  assumes "valid_slice h cs"
  shows "then_loop h cs ctx (int (len cs) - 1) final w =
         calls ctx (rev (indexed (slice_elems h cs))) final w"
  using then_loop_calls [OF assms order_refl, of ctx final w] length_slice_elems [OF assms]
  by simp

lemma ThenContext_calls:
  assumes "valid_slice hp (constructors c)"
  shows "ThenContext hp c (Some tm) w =
         calls context_TODO (rev (indexed (slice_elems hp (constructors c)))) (Some tm) w"
  by (simp add: ThenContext_def then_loop_whole [OF assms])

lemma Then_ThenContext: "Then hp c h w = adapted context_TODO (ThenContext hp c h w)"
  by (simp add: Then_def ThenContext_def adapted_def split: option.splits)

text \<open>A fold reads the heap only for the elements of the chain's slice.\<close>

lemma ThenContext_heap:
  assumes "valid_slice h (constructors c)" "valid_slice h' (constructors c)"
    and "slice_elems h' (constructors c) = slice_elems h (constructors c)"
  shows "ThenContext h' c tm w = ThenContext h c tm w"
proof (cases tm)
  case None
  then show ?thesis by (simp add: ThenContext_def)
next
  case (Some f)
  then show ?thesis by (simp add: ThenContext_calls assms)
qed

lemma Then_heap:
  assumes "valid_slice h (constructors c)" "valid_slice h' (constructors c)"
    and "slice_elems h' (constructors c) = slice_elems h (constructors c)"
  shows "Then h' c tm w = Then h c tm w"
  by (simp add: Then_ThenContext ThenContext_heap [OF assms])

section \<open>Lemmas on recorded calls\<close>

lemma outcome_invoke: "outcome (invoke i k ctx final w) = call_constructor k ctx final (user w)"
  by (simp add: outcome_def invoke_def call_constructor_def split: option.splits prod.splits)

lemma calls_append:
  "calls ctx (as @ bs) final w =
     (case calls ctx as final w of
        (Inl e, w') \<Rightarrow> (Inl e, w')
      | (Inr final', w') \<Rightarrow> calls ctx bs final' w')"
  by (induction as arbitrary: final w) (auto split: prod.splits sum.splits)

lemma calls_nested:
  "length js = length ks \<Longrightarrow>
   outcome (calls ctx (rev (zip js ks)) final w) = spec_nested ctx ks final (user w)"
proof (induction ks arbitrary: js)
  case Nil
  then show ?case by (simp add: outcome_def)
next
  case (Cons k ks)
  then obtain j js' where js: "js = j # js'" and l: "length js' = length ks"
    by (cases js) auto
  obtain res w' where r: "calls ctx (rev (zip js' ks)) final w = (res, w')"
    by (cases "calls ctx (rev (zip js' ks)) final w")
  from Cons.IH [OF l] r have n: "spec_nested ctx ks final (user w) = (res, user w')"
    by (simp add: outcome_def)
  show ?case
  proof (cases res)
    case (Inl e)
    with r n show ?thesis by (simp add: js calls_append outcome_def)
  next
    case (Inr inner)
    obtain r2 w2 where iv: "invoke j k ctx inner w' = (r2, w2)"
      by (cases "invoke j k ctx inner w'")
    have cc: "call_constructor k ctx inner (user w') = (r2, user w2)"
      using outcome_invoke [of j k ctx inner w'] by (simp add: outcome_def iv)
    have "calls ctx (rev (zip js (k # ks))) final w = calls ctx [(j, k)] inner w'"
      by (simp add: js calls_append r Inr)
    also have "outcome \<dots> = (r2, user w2)"
      by (cases r2) (simp_all add: iv outcome_def)
    finally show ?thesis by (simp add: n Inr cc)
  qed
qed

lemma calls_indexed_nested:
  "outcome (calls ctx (rev (indexed ks)) final w) = spec_nested ctx ks final (user w)"
  unfolding indexed_def by (rule calls_nested) simp




text \<open>Every call a fold records passes the context of the fold, also when the fold panics.\<close>

lemma then_loop_contexts:
  "\<exists>evs. invocations (snd (then_loop h cs ctx i final w)) = invocations w @ evs \<and>
         map snd evs = replicate (length evs) ctx"
proof (induction h cs ctx i final w rule: then_loop.induct)
  case (1 h cs ctx i final w)
  show ?case
  proof (cases "i \<ge> 0")
    case False
    then show ?thesis by (simp add: then_loop_neg)
  next
    case True
    show ?thesis
    proof (cases "slice_index h cs i")
      case (Inl e)
      with True show ?thesis by (subst then_loop.simps) simp
    next
      case (Inr k)
      obtain res w1 where i: "invoke i k ctx final w = (res, w1)"
        by (cases "invoke i k ctx final w")
      have w1: "\<exists>evs. invocations w1 = invocations w @ evs \<and> map snd evs = replicate (length evs) ctx"
      proof (cases k)
        case None
        with i show ?thesis by (simp add: invoke_def)
      next
        case (Some f)
        with i have "invocations w1 = invocations w @ [(i, ctx)]"
          by (auto simp: invoke_def split: prod.splits)
        then show ?thesis by simp
      qed
      show ?thesis
      proof (cases res)
        case (Inl e)
        with True Inr i w1 show ?thesis by (subst then_loop.simps) simp
      next
        case (Inr f)
        from "1.IH" [OF True \<open>slice_index h cs i = Inr k\<close> i [symmetric] Inr]
        obtain evs2 where
          e2: "invocations (snd (then_loop h cs ctx (i - 1) f w1)) = invocations w1 @ evs2"
              "map snd evs2 = replicate (length evs2) ctx"
          by blast
        from w1 obtain evs1 where
          e1: "invocations w1 = invocations w @ evs1" "map snd evs1 = replicate (length evs1) ctx"
          by blast
        have "then_loop h cs ctx i final w = then_loop h cs ctx (i - 1) f w1"
          using True \<open>slice_index h cs i = Inr k\<close> i Inr by (subst then_loop.simps) simp
        with e1 e2 show ?thesis
          by (intro exI [of _ "evs1 @ evs2"]) (simp add: replicate_add)
      qed
    qed
  qed
qed

section \<open>Lemmas on the adapter\<close>

lemma outcome_adapted: "outcome (adapted ctx r) = adapted ctx (outcome r)"
  by (cases r) (auto simp: outcome_def adapted_def split: sum.splits)

lemma serve_adapter:
  "http_Handler_ServeHTTP (http_HandlerFunc (CtxHandlerToHandlerFunc ctx final)) wr rq s =
   CtxHandler_ServeHTTP final ctx wr rq s"
  by (simp add: http_Handler_ServeHTTP_def http_HandlerFunc_def CtxHandlerToHandlerFunc_def
        http_HandlerFunc_ServeHTTP_def)

lemma snd_adapted: "snd (adapted ctx r) = snd r"
  by (cases r) (auto simp: adapted_def split: sum.splits)


lemma ThenContext_contexts:
  "\<exists>evs. invocations (snd (ThenContext hp c h w)) = invocations w @ evs \<and>
         map snd evs = replicate (length evs) context_TODO"
proof (cases h)
  case None
  then show ?thesis by (simp add: ThenContext_def)
next
  case (Some f)
  then show ?thesis
    using then_loop_contexts [of hp "constructors c" context_TODO "int (len (constructors c)) - 1" h w]
    by (simp add: ThenContext_def)
qed

lemma ThenContext_nested:
  assumes "valid_slice hp (constructors c)"
  shows "outcome (ThenContext hp c (Some tm) w) =
         spec_nested context_TODO (slice_elems hp (constructors c)) (Some tm) (user w)"
  by (simp add: ThenContext_calls [OF assms] calls_indexed_nested)

lemma Then_nested:
  assumes "valid_slice hp (constructors c)"
  shows "outcome (Then hp c (Some tm) w) =
         adapted context_TODO
           (spec_nested context_TODO (slice_elems hp (constructors c)) (Some tm) (user w))"
  by (simp add: Then_ThenContext outcome_adapted ThenContext_nested [OF assms])



lemma call_at_context:
  "call_constructor (at_context ctx k) ctx' next s = call_constructor k ctx next s"
  by (simp add: at_context_def call_constructor_def split: option.splits)

lemma spec_nested_at_context:
  "spec_nested ctx' (map (at_context ctx) ks) h s = spec_nested ctx ks h s"
  by (induction ks arbitrary: s) (simp_all add: call_at_context split: prod.splits sum.splits)

section \<open>Lemmas on the scenarios\<close>

lemma New_variadic:
  "slice_elems (snd (New (fst (variadic xs h)) (snd (variadic xs h))))
     (constructors (fst (New (fst (variadic xs h)) (snd (variadic xs h))))) = xs"
  "valid_slice (snd (New (fst (variadic xs h)) (snd (variadic xs h))))
     (constructors (fst (New (fst (variadic xs h)) (snd (variadic xs h)))))"
proof -
  have n: "New (fst (variadic xs h)) (snd (variadic xs h)) =
           (fst (New (fst (variadic xs h)) (snd (variadic xs h))),
            snd (New (fst (variadic xs h)) (snd (variadic xs h))))"
    by simp
  show "slice_elems (snd (New (fst (variadic xs h)) (snd (variadic xs h))))
     (constructors (fst (New (fst (variadic xs h)) (snd (variadic xs h))))) = xs"
    using New_props(1) [OF n] by (simp add: variadic_elems)
  show "valid_slice (snd (New (fst (variadic xs h)) (snd (variadic xs h))))
     (constructors (fst (New (fst (variadic xs h)) (snd (variadic xs h)))))"
    by (rule New_props(2) [OF n])
qed

lemma spies_elems:
  "slice_elems (snd spies) (constructors (fst spies)) = [spy, spy]"
  "valid_slice (snd spies) (constructors (fst spies))"
  unfolding spies_def spies_args_def by (rule New_variadic)+



lemmas serve_defs = adapted_def logging_def middleware_def endpoint_def
  call_constructor_def http_Handler_ServeHTTP_def http_HandlerFunc_def
  CtxHandlerToHandlerFunc_def http_HandlerFunc_ServeHTTP_def CtxHandler_ServeHTTP_def

lemma logger_auth_elems:
  "slice_elems (snd logger_auth) (constructors (fst logger_auth)) =
     [logging ''Logger'', logging ''Auth'']"
  "valid_slice (snd logger_auth) (constructors (fst logger_auth))"
proof -
  have n: "New (fst logger_auth_args) (snd logger_auth_args) = (fst logger_auth, snd logger_auth)"
    by (simp add: logger_auth_def)
  show "slice_elems (snd logger_auth) (constructors (fst logger_auth)) =
     [logging ''Logger'', logging ''Auth'']"
    using New_props(1) [OF n] by (simp add: logger_auth_args_def variadic_elems)
  show "valid_slice (snd logger_auth) (constructors (fst logger_auth))"
    by (rule New_props(2) [OF n])
qed

lemma logger_auth_fold:
  "snd (ThenContext (snd logger_auth) (fst logger_auth) (endpoint ''index'')
          \<lparr>user = [], invocations = []\<rparr>) =
   \<lparr>user = [], invocations = [(1, TODO), (0, TODO)]\<rparr>"
  by (simp add: endpoint_def ThenContext_calls logger_auth_elems indexed_def invoke_def
        logging_def middleware_def context_TODO_def)



lemma logger_auth_request:
  "(case fst (Then (snd logger_auth) (fst logger_auth) (endpoint name)
                \<lparr>user = [], invocations = []\<rparr>) of
      Inl e \<Rightarrow> (Inl e, [])
    | Inr p \<Rightarrow> http_Handler_ServeHTTP p () () []) =
   (Inr (), [''Logger'', ''Auth'', name])"
proof -
  have "fst (Then (snd logger_auth) (fst logger_auth) (endpoint name)
                \<lparr>user = [], invocations = []\<rparr>) =
        fst (adapted context_TODO (spec_nested context_TODO [logging ''Logger'', logging ''Auth'']
               (endpoint name) []))"
    using Then_nested [OF logger_auth_elems(2), of "\<lambda>ctx w r s. (Inr (), s @ [name])"
        "\<lparr>user = [], invocations = []\<rparr>", THEN arg_cong [where f = fst]]
    by (simp add: outcome_def logger_auth_elems(1) endpoint_def)
  then show ?thesis
    by (simp add: serve_defs)
qed

section \<open>The order of wrapping\<close>

text \<open>
  C1. For a chain whose slice holds the constructors \<open>c1, ..., cn\<close> and a terminal \<open>tm\<close>
  that is not nil, \<open>ThenContext\<close> returns what the nested expression
  \<^verbatim>\<open>c1(ctx, c2(ctx, ... cn(ctx, tm)))\<close> returns, with the same effect on the caller's
  state (the last constructor is called first, on the terminal; the first constructor
  is called last and is the outermost layer), \<open>Then\<close> returns the request/response
  adapter of that handler, and a request to the adapter is a request to the handler
  with the context of the fold.
\<close>

theorem then_composes_nested:
  fixes tm :: "Context \<Rightarrow> 'w \<Rightarrow> 'r \<Rightarrow> ('s, unit) go"
  assumes "valid_slice hp (constructors c)"
  shows "outcome (ThenContext hp c (Some tm) w) =
           spec_nested context_TODO (slice_elems hp (constructors c)) (Some tm) (user w) \<and>
         outcome (Then hp c (Some tm) w) =
           adapted context_TODO
             (spec_nested context_TODO (slice_elems hp (constructors c)) (Some tm) (user w)) \<and>
         http_Handler_ServeHTTP (http_HandlerFunc (CtxHandlerToHandlerFunc context_TODO final)) wr rq =
           CtxHandler_ServeHTTP (final :: ('w, 'r, 's) CtxHandler) context_TODO wr rq"
proof -
  have a: "outcome (ThenContext hp c (Some tm) w) =
           spec_nested context_TODO (slice_elems hp (constructors c)) (Some tm) (user w)"
    by (simp add: ThenContext_calls [OF assms] calls_indexed_nested)
  have b: "outcome (Then hp c (Some tm) w) =
           adapted context_TODO
             (spec_nested context_TODO (slice_elems hp (constructors c)) (Some tm) (user w))"
    by (simp add: Then_ThenContext outcome_adapted a)
  have c: "http_Handler_ServeHTTP (http_HandlerFunc (CtxHandlerToHandlerFunc context_TODO final)) wr rq =
           CtxHandler_ServeHTTP final context_TODO wr rq"
    by (rule ext) (rule serve_adapter)
  from a b c show ?thesis by (intro conjI)
qed

theorem then_composes_nested_witness:
  "valid_slice (snd logger_auth) (constructors (fst logger_auth)) \<and>
   (case fst (Then (snd logger_auth) (fst logger_auth) (endpoint ''index'')
                \<lparr>user = [], invocations = []\<rparr>) of
      Inl e \<Rightarrow> (Inl e, [])
    | Inr p \<Rightarrow> http_Handler_ServeHTTP p () () []) =
   (Inr (), [''Logger'', ''Auth'', ''index''])"
proof -
  have v: "valid_slice (snd logger_auth) (constructors (fst logger_auth))"
    by (rule logger_auth_elems)
  have "fst (outcome (Then (snd logger_auth) (fst logger_auth) (endpoint ''index'')
                \<lparr>user = [], invocations = []\<rparr>)) =
        fst (adapted context_TODO (spec_nested context_TODO [logging ''Logger'', logging ''Auth'']
               (endpoint ''index'') []))"
    using then_composes_nested [OF v, where tm = "\<lambda>ctx w r s. (Inr (), s @ [''index''])"
        and w = "\<lparr>user = [], invocations = []\<rparr>"]
    by (simp add: logger_auth_elems endpoint_def)
  then show ?thesis
    using v
    by (simp add: outcome_def adapted_def logging_def middleware_def endpoint_def
          call_constructor_def http_Handler_ServeHTTP_def http_HandlerFunc_def
          CtxHandlerToHandlerFunc_def http_HandlerFunc_ServeHTTP_def CtxHandler_ServeHTTP_def)
qed

section \<open>A nil terminal\<close>

text \<open>
  C2. With a nil terminal handler, \<open>Then\<close> and \<open>ThenContext\<close> panic with
  \<^verbatim>\<open>"nil is not allowed"\<close> for every heap and every chain, whatever its constructors:
  no handler is returned, the caller's state is left as it was and no constructor call
  is recorded, so the panic comes before any constructor is invoked.
\<close>

theorem nil_terminal_panics:
  "Then hp c None w = (Inl (Panic ''nil is not allowed''), w) \<and>
   ThenContext hp c None w = (Inl (Panic ''nil is not allowed''), w)"
  by (simp add: Then_def ThenContext_def)

theorem nil_terminal_panics_witness:
  "Then (snd logger_auth) (fst logger_auth) None \<lparr>user = [], invocations = []\<rparr> =
     (Inl (Panic ''nil is not allowed''), \<lparr>user = [], invocations = []\<rparr>) \<and>
   ThenContext (snd no_constructors) (fst no_constructors) None \<lparr>user = [], invocations = []\<rparr> =
     (Inl (Panic ''nil is not allowed''), \<lparr>user = [], invocations = []\<rparr>)"
  using nil_terminal_panics [of "snd logger_auth" "fst logger_auth" "\<lparr>user = [], invocations = []\<rparr>"]
    nil_terminal_panics [of "snd no_constructors" "fst no_constructors"
      "\<lparr>user = [], invocations = []\<rparr>"]
  by simp

section \<open>Append and its receiver\<close>

text \<open>
  C3. \<open>Append\<close> writes to no array that existed before the call, so the receiver's
  constructors are the same after it and \<open>Then\<close> and \<open>ThenContext\<close> of the receiver
  with any terminal are the same before and after, in result and effect. Two chains
  appended from the same base, with any allocation between the two calls, each hold
  the base's constructors followed by their own, leave the base as it was, and share
  no array with each other or with the base.
\<close>

theorem append_leaves_receiver:
  assumes "valid_slice h (constructors c)"
    and "valid_slice h m1"
    and "Append c m1 h = (e1, h1)"
    and "arrays h1' = arrays h1 @ ys"
    and "valid_slice h1' m2"
    and "Append c m2 h1' = (e2, h2)"
  shows "take (length (arrays h)) (arrays h1) = arrays h \<and>
         slice_elems h1 (constructors c) = slice_elems h (constructors c) \<and>
         Then h1 c tm w = Then h c tm w \<and>
         ThenContext h1 c tm w = ThenContext h c tm w \<and>
         Then h2 c tm w = Then h c tm w \<and>
         ThenContext h2 c tm w = ThenContext h c tm w \<and>
         slice_elems h2 (constructors e1) = slice_elems h (constructors c) @ slice_elems h m1 \<and>
         slice_elems h2 (constructors e2) = slice_elems h (constructors c) @ slice_elems h1' m2 \<and>
         (array (constructors e1) = None \<or> array (constructors e1) \<noteq> array (constructors e2)) \<and>
         (array (constructors e1) = None \<or> array (constructors e1) \<noteq> array (constructors c)) \<and>
         (array (constructors e2) = None \<or> array (constructors e2) \<noteq> array (constructors c))"
proof -
  note a1 = Append_props [OF assms(1,2,3)]
  from a1(3) obtain zs1 where z1: "arrays h1 = arrays h @ zs1" by blast
  have z1': "arrays h1' = arrays h @ (zs1 @ ys)" using assms(4) z1 by simp
  have vc1: "valid_slice h1 (constructors c)" using assms(1) z1 by (rule valid_slice_extend)
  have ec1: "slice_elems h1 (constructors c) = slice_elems h (constructors c)"
    using assms(1) z1 by (rule slice_elems_extend)
  have vc1': "valid_slice h1' (constructors c)" using assms(1) z1' by (rule valid_slice_extend)
  have ec1': "slice_elems h1' (constructors c) = slice_elems h (constructors c)"
    using assms(1) z1' by (rule slice_elems_extend)
  note a2 = Append_props [OF vc1' assms(5,6)]
  from a2(3) obtain zs2 where z2: "arrays h2 = arrays h1' @ zs2" by blast
  have z2': "arrays h2 = arrays h1 @ (ys @ zs2)" using assms(4) z2 by simp
  have vc2: "valid_slice h2 (constructors c)" using vc1' z2 by (rule valid_slice_extend)
  have ec2: "slice_elems h2 (constructors c) = slice_elems h (constructors c)"
    using slice_elems_extend [OF vc1' z2] ec1' by simp
  have ee1: "slice_elems h2 (constructors e1) = slice_elems h (constructors c) @ slice_elems h m1"
    using slice_elems_extend [OF a1(2) z2'] a1(1) by simp
  have ee2: "slice_elems h2 (constructors e2) = slice_elems h (constructors c) @ slice_elems h1' m2"
    using a2(1) ec1' by simp
  have t: "take (length (arrays h)) (arrays h1) = arrays h" by (simp add: z1)
  have d12: "array (constructors e1) = None \<or> array (constructors e1) \<noteq> array (constructors e2)"
    using a1(2) a2(4) assms(4) by (auto simp: valid_slice_def split: option.splits)
  have d1c: "array (constructors e1) = None \<or> array (constructors e1) \<noteq> array (constructors c)"
    using a1(4) assms(1) by (auto simp: valid_slice_def split: option.splits)
  have d2c: "array (constructors e2) = None \<or> array (constructors e2) \<noteq> array (constructors c)"
    using a2(4) vc1' by (auto simp: valid_slice_def split: option.splits)
  have f1: "Then h1 c tm w = Then h c tm w" using assms(1) vc1 ec1 by (rule Then_heap)
  have f2: "ThenContext h1 c tm w = ThenContext h c tm w"
    using assms(1) vc1 ec1 by (rule ThenContext_heap)
  have f3: "Then h2 c tm w = Then h c tm w" using assms(1) vc2 ec2 by (rule Then_heap)
  have f4: "ThenContext h2 c tm w = ThenContext h c tm w"
    using assms(1) vc2 ec2 by (rule ThenContext_heap)
  from t ec1 f1 f2 f3 f4 ee1 ee2 d12 d1c d2c show ?thesis by (intro conjI)
qed

theorem append_leaves_receiver_witness:
  "valid_slice (snd route_a_args) (constructors (fst logger_auth)) \<and>
   slice_elems (snd route_a) (constructors (fst logger_auth)) = [logging ''Logger'', logging ''Auth''] \<and>
   slice_elems (snd route_b) (constructors (fst route_a)) =
     [logging ''Logger'', logging ''Auth'', logging ''A''] \<and>
   slice_elems (snd route_b) (constructors (fst route_b)) =
     [logging ''Logger'', logging ''Auth'', logging ''B''] \<and>
   Then (snd route_b) (fst logger_auth) (endpoint ''index'') \<lparr>user = [], invocations = []\<rparr> =
   Then (snd route_a_args) (fst logger_auth) (endpoint ''index'') \<lparr>user = [], invocations = []\<rparr>"
proof -
  have g0: "arrays (snd route_a_args) = arrays (snd logger_auth) @ [[logging ''A'']]"
    by (simp add: route_a_args_def variadic_arrays)
  have vc: "valid_slice (snd route_a_args) (constructors (fst logger_auth))"
    using logger_auth_elems(2) g0 by (rule valid_slice_extend)
  have ec: "slice_elems (snd route_a_args) (constructors (fst logger_auth)) =
            [logging ''Logger'', logging ''Auth'']"
    using slice_elems_extend [OF logger_auth_elems(2) g0] by (simp add: logger_auth_elems(1))
  have vm1: "valid_slice (snd route_a_args) (fst route_a_args)"
    unfolding route_a_args_def by (rule variadic_valid)
  have em1: "slice_elems (snd route_a_args) (fst route_a_args) = [logging ''A'']"
    unfolding route_a_args_def by (rule variadic_elems)
  have a1: "Append (fst logger_auth) (fst route_a_args) (snd route_a_args) = (fst route_a, snd route_a)"
    by (simp add: route_a_def)
  have g1: "arrays (snd route_b_args) = arrays (snd route_a) @ [[logging ''B'']]"
    by (simp add: route_b_args_def variadic_arrays)
  have vm2: "valid_slice (snd route_b_args) (fst route_b_args)"
    unfolding route_b_args_def by (rule variadic_valid)
  have em2: "slice_elems (snd route_b_args) (fst route_b_args) = [logging ''B'']"
    unfolding route_b_args_def by (rule variadic_elems)
  have a2: "Append (fst logger_auth) (fst route_b_args) (snd route_b_args) = (fst route_b, snd route_b)"
    by (simp add: route_b_def)
  note t = append_leaves_receiver [OF vc vm1 a1 g1 vm2 a2,
      where tm = "endpoint ''index''" and w = "\<lparr>user = [], invocations = []\<rparr>",
      unfolded ec em1 em2]
  from t have
    "slice_elems (snd route_a) (constructors (fst logger_auth)) = [logging ''Logger'', logging ''Auth'']"
    "slice_elems (snd route_b) (constructors (fst route_a)) =
       [logging ''Logger'', logging ''Auth''] @ [logging ''A'']"
    "slice_elems (snd route_b) (constructors (fst route_b)) =
       [logging ''Logger'', logging ''Auth''] @ [logging ''B'']"
    "Then (snd route_b) (fst logger_auth) (endpoint ''index'') \<lparr>user = [], invocations = []\<rparr> =
     Then (snd route_a_args) (fst logger_auth) (endpoint ''index'') \<lparr>user = [], invocations = []\<rparr>"
    by blast+
  with vc show ?thesis by simp
qed

section \<open>The sequence of an appended chain\<close>

text \<open>
  C4. For \<open>base = New(cs...)\<close> and \<open>ext = base.Append(extra...)\<close>, with any allocation
  between the two calls, the constructors of \<open>ext\<close> are those of \<open>cs\<close> followed by those
  of \<open>extra\<close>, in order, and those of \<open>base\<close> are still those of \<open>cs\<close>; so \<open>Then\<close> of
  \<open>base\<close> is the nested wrapping by \<open>cs\<close> alone and \<open>Then\<close> of \<open>ext\<close> the nested wrapping
  by \<open>cs\<close> followed by \<open>extra\<close>. With \<open>New(A)\<close> and \<open>Append(B)\<close>, a request to
  \<open>base.Then(term)\<close> passes \<open>A\<close> and then \<open>term\<close>, and a request to \<open>ext.Then(term)\<close> passes
  \<open>A\<close>, \<open>B\<close> and then \<open>term\<close>.
\<close>

theorem append_extends_sequence:
  fixes tm :: "Context \<Rightarrow> 'w \<Rightarrow> 'r \<Rightarrow> ('s, unit) go"
  assumes "New cs h = (base, h1)"
    and "arrays h1' = arrays h1 @ ys"
    and "valid_slice h1' extra"
    and "Append base extra h1' = (ext, h2)"
  shows "slice_elems h2 (constructors ext) = slice_elems h cs @ slice_elems h1' extra \<and>
         slice_elems h2 (constructors base) = slice_elems h cs \<and>
         outcome (Then h2 base (Some tm) w) =
           adapted context_TODO (spec_nested context_TODO (slice_elems h cs) (Some tm) (user w)) \<and>
         outcome (Then h2 ext (Some tm) w) =
           adapted context_TODO
             (spec_nested context_TODO (slice_elems h cs @ slice_elems h1' extra) (Some tm) (user w))"
proof -
  note n = New_props [OF assms(1)]
  have vb: "valid_slice h1' (constructors base)"
    using n(2) assms(2) by (rule valid_slice_extend)
  have eb: "slice_elems h1' (constructors base) = slice_elems h cs"
    using slice_elems_extend [OF n(2) assms(2)] n(1) by simp
  note a = Append_props [OF vb assms(3,4)]
  from a(3) obtain zs where z: "arrays h2 = arrays h1' @ zs" by blast
  have vb2: "valid_slice h2 (constructors base)"
    using vb z by (rule valid_slice_extend)
  have eb2: "slice_elems h2 (constructors base) = slice_elems h cs"
    using slice_elems_extend [OF vb z] eb by simp
  have ee: "slice_elems h2 (constructors ext) = slice_elems h cs @ slice_elems h1' extra"
    using a(1) eb by simp
  show ?thesis
    using Then_nested [OF vb2, of tm w] Then_nested [OF a(2), of tm w]
    by (simp add: eb2 ee)
qed

theorem append_extends_sequence_witness:
  "slice_elems (snd ext_b) (constructors (fst ext_b)) = [logging ''A'', logging ''B''] \<and>
   slice_elems (snd ext_b) (constructors (fst base_a)) = [logging ''A''] \<and>
   (case fst (Then (snd ext_b) (fst base_a) (endpoint ''term'') \<lparr>user = [], invocations = []\<rparr>) of
      Inl e \<Rightarrow> (Inl e, [])
    | Inr p \<Rightarrow> http_Handler_ServeHTTP p () () []) = (Inr (), [''A'', ''term'']) \<and>
   (case fst (Then (snd ext_b) (fst ext_b) (endpoint ''term'') \<lparr>user = [], invocations = []\<rparr>) of
      Inl e \<Rightarrow> (Inl e, [])
    | Inr p \<Rightarrow> http_Handler_ServeHTTP p () () []) = (Inr (), [''A'', ''B'', ''term''])"
proof -
  have n: "New (fst base_a_args) (snd base_a_args) = (fst base_a, snd base_a)"
    by (simp add: base_a_def)
  have g: "arrays (snd ext_b_args) = arrays (snd base_a) @ [[logging ''B'']]"
    by (simp add: ext_b_args_def variadic_arrays)
  have v: "valid_slice (snd ext_b_args) (fst ext_b_args)"
    unfolding ext_b_args_def by (rule variadic_valid)
  have a: "Append (fst base_a) (fst ext_b_args) (snd ext_b_args) = (fst ext_b, snd ext_b)"
    by (simp add: ext_b_def)
  have ea: "slice_elems (snd base_a_args) (fst base_a_args) = [logging ''A'']"
    unfolding base_a_args_def by (rule variadic_elems)
  have eb: "slice_elems (snd ext_b_args) (fst ext_b_args) = [logging ''B'']"
    unfolding ext_b_args_def by (rule variadic_elems)
  note t = append_extends_sequence [OF n g v a,
      where tm = "\<lambda>ctx w r s. (Inr (), s @ [''term''])" and w = "\<lparr>user = [], invocations = []\<rparr>",
      unfolded ea eb]
  have b: "fst (Then (snd ext_b) (fst base_a) (endpoint ''term'') \<lparr>user = [], invocations = []\<rparr>) =
        fst (adapted context_TODO (spec_nested context_TODO [logging ''A''] (endpoint ''term'') []))"
    using t [THEN conjunct2, THEN conjunct2, THEN conjunct1, THEN arg_cong [where f = fst]]
    by (simp add: outcome_def endpoint_def)
  have e: "fst (Then (snd ext_b) (fst ext_b) (endpoint ''term'') \<lparr>user = [], invocations = []\<rparr>) =
        fst (adapted context_TODO
              (spec_nested context_TODO [logging ''A'', logging ''B''] (endpoint ''term'') []))"
    using t [THEN conjunct2, THEN conjunct2, THEN conjunct2, THEN arg_cong [where f = fst]]
    by (simp add: outcome_def endpoint_def)
  show ?thesis
    unfolding b e
    using t [THEN conjunct1] t [THEN conjunct2, THEN conjunct1]
    by (simp add: adapted_def logging_def middleware_def endpoint_def
          call_constructor_def http_Handler_ServeHTTP_def http_HandlerFunc_def
          CtxHandlerToHandlerFunc_def http_HandlerFunc_ServeHTTP_def CtxHandler_ServeHTTP_def)
qed

section \<open>The empty chain\<close>

text \<open>
  C5. For a chain of no constructors and a terminal \<open>tm\<close> that is not nil,
  \<open>ThenContext\<close> returns \<open>tm\<close> itself and changes nothing, \<open>Then\<close> returns \<open>tm\<close>
  wrapped by the request/response adapter only, and a request to that result is the
  call of \<open>tm\<close> with the context of the fold.
\<close>

theorem empty_chain_is_identity:
  fixes tm :: "Context \<Rightarrow> 'w \<Rightarrow> 'r \<Rightarrow> ('s, unit) go"
  assumes "len (constructors c) = 0"
  shows "ThenContext hp c (Some tm) w = (Inr (Some tm), w) \<and>
         Then hp c (Some tm) w =
           (Inr (http_HandlerFunc (CtxHandlerToHandlerFunc context_TODO (Some tm))), w) \<and>
         http_Handler_ServeHTTP
           (http_HandlerFunc (CtxHandlerToHandlerFunc context_TODO (Some tm))) wr rq =
           tm context_TODO wr rq"
proof -
  have a: "ThenContext hp c (Some tm) w = (Inr (Some tm), w)"
    using assms by (simp add: ThenContext_def then_loop_neg)
  have b: "Then hp c (Some tm) w =
           (Inr (http_HandlerFunc (CtxHandlerToHandlerFunc context_TODO (Some tm))), w)"
    by (simp add: Then_ThenContext a adapted_def)
  have c: "http_Handler_ServeHTTP
           (http_HandlerFunc (CtxHandlerToHandlerFunc context_TODO (Some tm))) wr rq =
           tm context_TODO wr rq"
    by (rule ext) (simp add: serve_adapter CtxHandler_ServeHTTP_def)
  from a b c show ?thesis by (intro conjI)
qed

theorem empty_chain_is_identity_witness:
  "len (constructors (fst no_constructors)) = 0 \<and>
   ThenContext (snd no_constructors) (fst no_constructors)
      (endpoint ''index'') \<lparr>user = [], invocations = []\<rparr> =
   (Inr (endpoint ''index''), \<lparr>user = [], invocations = []\<rparr>) \<and>
   (case fst (Then (snd no_constructors) (fst no_constructors) (endpoint ''index'')
               \<lparr>user = [], invocations = []\<rparr>) of
      Inl e \<Rightarrow> (Inl e, [])
    | Inr p \<Rightarrow> http_Handler_ServeHTTP p () () []) = (Inr (), [''index''])"
proof -
  have l: "len (constructors (fst no_constructors)) = 0"
    by (simp add: no_constructors_def New_result slice_elems_nil Let_def) (simp add: nil_slice_def)
  show ?thesis
    using l empty_chain_is_identity [OF l, where tm = "\<lambda>ctx w r s. (Inr (), s @ [''index''])"
        and hp = "snd no_constructors" and w = "\<lparr>user = [], invocations = []\<rparr>"
        and wr = "()" and rq = "()"]
    by (simp add: endpoint_def)
qed

section \<open>Folding a chain twice\<close>




section \<open>Functions as terminals\<close>

text \<open>
  C7. \<open>ThenFunc\<close> takes a function value: for nil it is \<open>Then\<close> of the nil handler, the
  panic \<^verbatim>\<open>"nil is not allowed"\<close> with the state unchanged, and for a function \<open>f\<close> it is
  \<open>Then\<close> of the conversion \<^verbatim>\<open>CtxHandlerFunc(f)\<close>, the handler whose method is \<open>f\<close>.
  \<open>ThenFuncContext\<close> of a function \<open>f\<close> is \<open>ThenContext\<close> of the same conversion; for nil
  its branch is not well typed, so it gives neither that panic nor any other result.
\<close>

theorem func_variants:
  "ThenFunc hp c None w = Then hp c None w \<and>
   ThenFunc hp c None w = (Inl (Panic ''nil is not allowed''), w) \<and>
   ThenFuncContext hp c None w = None \<and>
   ThenFunc hp c (Some f) w = Then hp c (CtxHandlerFunc_as_CtxHandler (Some f)) w \<and>
   ThenFuncContext hp c (Some f) w =
     Some (ThenContext hp c (CtxHandlerFunc_as_CtxHandler (Some f)) w) \<and>
   CtxHandlerFunc_as_CtxHandler (Some f) = Some f"
proof -
  have "CtxHandlerFunc_ServeHTTP (Some f) = f"
    by (intro ext) (simp add: CtxHandlerFunc_ServeHTTP_def)
  then show ?thesis
    by (simp add: ThenFunc_def ThenFuncContext_def Then_def CtxHandlerFunc_as_CtxHandler_def)
qed

theorem func_variants_witness:
  "ThenFunc (snd logger_auth) (fst logger_auth) None \<lparr>user = [], invocations = []\<rparr> =
     (Inl (Panic ''nil is not allowed''), \<lparr>user = [], invocations = []\<rparr>) \<and>
   ThenFuncContext (snd logger_auth) (fst logger_auth) None \<lparr>user = [], invocations = []\<rparr> =
     None \<and>
   (case fst (ThenFunc (snd logger_auth) (fst logger_auth)
                (Some (\<lambda>ctx w r s. (Inr (), s @ [''index''])))
                \<lparr>user = [], invocations = []\<rparr>) of
      Inl e \<Rightarrow> (Inl e, [])
    | Inr p \<Rightarrow> http_Handler_ServeHTTP p () () []) =
   (Inr (), [''Logger'', ''Auth'', ''index''])"
proof -
  let ?w = "\<lparr>user = [], invocations = []\<rparr> :: string list world"
  let ?f = "\<lambda>(ctx :: Context) (w :: unit) (r :: unit) s. (Inr () :: error + unit, s @ [''index''])"
  note t = func_variants [of "snd logger_auth" "fst logger_auth" ?w ?f]
  have a: "ThenFunc (snd logger_auth) (fst logger_auth) None ?w =
           (Inl (Panic ''nil is not allowed''), ?w)"
    using t by (rule conjunct2 [THEN conjunct1])
  have b: "ThenFuncContext (snd logger_auth) (fst logger_auth) None ?w = None"
    using t by (rule conjunct2 [THEN conjunct2, THEN conjunct1])
  have c: "ThenFunc (snd logger_auth) (fst logger_auth) (Some ?f) ?w =
           Then (snd logger_auth) (fst logger_auth) (CtxHandlerFunc_as_CtxHandler (Some ?f)) ?w"
    using t by (rule conjunct2 [THEN conjunct2, THEN conjunct2, THEN conjunct1])
  have d: "CtxHandlerFunc_as_CtxHandler (Some ?f) = endpoint ''index''"
    using t [THEN conjunct2, THEN conjunct2, THEN conjunct2, THEN conjunct2, THEN conjunct2]
    by (simp add: endpoint_def)
  have "(case fst (ThenFunc (snd logger_auth) (fst logger_auth) (Some ?f) ?w) of
           Inl e \<Rightarrow> (Inl e, [])
         | Inr p \<Rightarrow> http_Handler_ServeHTTP p () () []) =
        (Inr (), [''Logger'', ''Auth'', ''index''])"
    unfolding c d by (rule logger_auth_request)
  with a b show ?thesis by (intro conjI)
qed

section \<open>The two shapes of a fold\<close>

text \<open>
  C8. For every chain and every terminal, \<open>Then\<close> panics where \<open>ThenContext\<close> does, and
  otherwise returns \<^verbatim>\<open>CtxHandlerToHandlerFunc\<close> of the fold's context and the handler
  \<open>ThenContext\<close> returns, with the same state; a request \<open>(wr, rq)\<close> to that adapter
  is the call of the handler with \<open>(ctx, wr, rq)\<close>.
\<close>

theorem then_adapts_then_context:
  "Then hp c h w =
     (case ThenContext hp c h w of
        (Inl e, w') \<Rightarrow> (Inl e, w')
      | (Inr final, w') \<Rightarrow> (Inr (http_HandlerFunc (CtxHandlerToHandlerFunc context_TODO final)), w')) \<and>
   http_Handler_ServeHTTP (http_HandlerFunc (CtxHandlerToHandlerFunc ctx fn)) wr rq s =
     CtxHandler_ServeHTTP fn ctx wr rq s"
  using Then_ThenContext [of hp c h w] by (simp add: adapted_def serve_adapter)

theorem then_adapts_then_context_witness:
  "Then (snd logger_auth) (fst logger_auth) (endpoint ''index'') \<lparr>user = [], invocations = []\<rparr> =
     (case ThenContext (snd logger_auth) (fst logger_auth) (endpoint ''index'')
             \<lparr>user = [], invocations = []\<rparr> of
        (Inl e, w') \<Rightarrow> (Inl e, w')
      | (Inr final, w') \<Rightarrow>
          (Inr (http_HandlerFunc (CtxHandlerToHandlerFunc context_TODO final)), w')) \<and>
   http_Handler_ServeHTTP
     (http_HandlerFunc (CtxHandlerToHandlerFunc TODO (endpoint ''index''))) () () [''seen''] =
     (Inr (), [''seen'', ''index''])"
  using then_adapts_then_context [of "snd logger_auth" "fst logger_auth" "endpoint ''index''"
      "\<lparr>user = [], invocations = []\<rparr>" TODO "endpoint ''index''" "()" "()" "[''seen'']"]
  by (simp add: endpoint_def CtxHandler_ServeHTTP_def)

section \<open>The context of a fold\<close>

text \<open>
  C9. A fold (\<open>Then\<close> or \<open>ThenContext\<close>) takes the root context \<open>TODO\<close> once, at its
  start, and calls every constructor with that context: for a valid chain and a
  terminal that is not nil, the fold returns what the nested wrapping returns when the
  context argument of every constructor is fixed to \<open>TODO\<close>, whatever context that
  wrapping is given, with the same effect on the caller's state, panics included. The
  adapter \<open>Then\<close> returns calls the composed handler with \<open>TODO\<close> for every writer and
  request, so the context does not come from the request. A fold keeps the calls
  recorded before it, and every call it records, also when it panics, has \<open>TODO\<close> as
  its context.
\<close>

theorem one_context_per_fold:
  fixes tm :: "Context \<Rightarrow> 'w \<Rightarrow> 'r \<Rightarrow> ('s, unit) go"
    and h :: "('w, 'r, 's) CtxHandler"
  shows
  "take (length (invocations w)) (invocations (snd (Then hp c h w))) = invocations w \<and>
   map snd (new_invocations w (snd (Then hp c h w))) =
     replicate (length (new_invocations w (snd (Then hp c h w)))) context_TODO \<and>
   take (length (invocations w)) (invocations (snd (ThenContext hp c h w))) = invocations w \<and>
   map snd (new_invocations w (snd (ThenContext hp c h w))) =
     replicate (length (new_invocations w (snd (ThenContext hp c h w)))) context_TODO \<and>
   (case ThenContext hp c h w of
      (Inl e, w') \<Rightarrow> Then hp c h w = (Inl e, w')
    | (Inr final, w') \<Rightarrow>
        (\<exists>p. Then hp c h w = (Inr p, w') \<and>
             (\<forall>wr rq. http_Handler_ServeHTTP p wr rq =
                       CtxHandler_ServeHTTP final context_TODO wr rq))) \<and>
   context_TODO = TODO \<and>
   (valid_slice hp (constructors c) \<longrightarrow>
      (\<forall>ctx'.
         outcome (ThenContext hp c (Some tm) w) =
           spec_nested ctx' (map (at_context TODO) (slice_elems hp (constructors c)))
             (Some tm) (user w) \<and>
         outcome (Then hp c (Some tm) w) =
           adapted TODO
             (spec_nested ctx' (map (at_context TODO) (slice_elems hp (constructors c)))
                (Some tm) (user w))))"
proof -
  obtain evs where e: "invocations (snd (ThenContext hp c h w)) = invocations w @ evs"
    "map snd evs = replicate (length evs) context_TODO"
    using ThenContext_contexts by blast
  have s: "snd (Then hp c h w) = snd (ThenContext hp c h w)"
    by (simp add: Then_ThenContext snd_adapted)
  have a: "take (length (invocations w)) (invocations (snd (ThenContext hp c h w))) = invocations w"
    by (simp add: e)
  have b: "map snd (new_invocations w (snd (ThenContext hp c h w))) =
     replicate (length (new_invocations w (snd (ThenContext hp c h w)))) context_TODO"
    by (simp add: new_invocations_def e)
  have c: "(case ThenContext hp c h w of
      (Inl e, w') \<Rightarrow> Then hp c h w = (Inl e, w')
    | (Inr final, w') \<Rightarrow>
        (\<exists>p. Then hp c h w = (Inr p, w') \<and>
             (\<forall>wr rq. http_Handler_ServeHTTP p wr rq =
                       CtxHandler_ServeHTTP final context_TODO wr rq)))"
    by (auto simp: Then_ThenContext adapted_def serve_adapter split: prod.splits sum.splits)
  have d: "valid_slice hp (constructors c) \<longrightarrow>
      (\<forall>ctx'.
         outcome (ThenContext hp c (Some tm) w) =
           spec_nested ctx' (map (at_context TODO) (slice_elems hp (constructors c)))
             (Some tm) (user w) \<and>
         outcome (Then hp c (Some tm) w) =
           adapted TODO
             (spec_nested ctx' (map (at_context TODO) (slice_elems hp (constructors c)))
                (Some tm) (user w)))"
  proof (intro impI allI conjI)
    fix ctx'
    assume v: "valid_slice hp (constructors c)"
    show "outcome (ThenContext hp c (Some tm) w) =
           spec_nested ctx' (map (at_context TODO) (slice_elems hp (constructors c)))
             (Some tm) (user w)"
      by (simp add: ThenContext_nested [OF v] spec_nested_at_context context_TODO_def)
    show "outcome (Then hp c (Some tm) w) =
           adapted TODO
             (spec_nested ctx' (map (at_context TODO) (slice_elems hp (constructors c)))
                (Some tm) (user w))"
      by (simp add: Then_nested [OF v] spec_nested_at_context context_TODO_def)
  qed
  have a': "take (length (invocations w)) (invocations (snd (Then hp c h w))) = invocations w"
    using a by (simp only: s)
  have b': "map snd (new_invocations w (snd (Then hp c h w))) =
     replicate (length (new_invocations w (snd (Then hp c h w)))) context_TODO"
    using b by (simp only: s)
  have t: "context_TODO = TODO" by (simp add: context_TODO_def)
  from a' b' a b c t d show ?thesis by (intro conjI)
qed

theorem one_context_per_fold_witness:
  "new_invocations \<lparr>user = [], invocations = []\<rparr>
     (snd (Then (snd logger_auth) (fst logger_auth) (endpoint ''index'')
             \<lparr>user = [], invocations = []\<rparr>)) = [(1, TODO), (0, TODO)] \<and>
   map snd (new_invocations \<lparr>user = [], invocations = []\<rparr>
     (snd (Then (snd logger_auth) (fst logger_auth) (endpoint ''index'')
             \<lparr>user = [], invocations = []\<rparr>))) = [context_TODO, context_TODO] \<and>
   valid_slice (snd spies) (constructors (fst spies)) \<and>
   user (snd (Then (snd spies) (fst spies) spy_endpoint \<lparr>user = [], invocations = []\<rparr>)) =
     [TODO, TODO] \<and>
   (case fst (Then (snd spies) (fst spies) spy_endpoint \<lparr>user = [], invocations = []\<rparr>) of
      Inl e \<Rightarrow> (Inl e, [])
    | Inr p \<Rightarrow> http_Handler_ServeHTTP p () () []) = (Inr (), [TODO])"
proof -
  let ?w = "\<lparr>user = [], invocations = []\<rparr> :: string list world"
  let ?w' = "snd (Then (snd logger_auth) (fst logger_auth) (endpoint ''index'') ?w)"
  have n: "new_invocations ?w ?w' = [(1, TODO), (0, TODO)]"
    by (simp add: Then_ThenContext snd_adapted logger_auth_fold new_invocations_def)
  have "map snd (new_invocations ?w ?w') = replicate (length (new_invocations ?w ?w')) context_TODO"
    using one_context_per_fold [of ?w "snd logger_auth" "fst logger_auth" "endpoint ''index''"]
    by (rule conjunct2 [THEN conjunct1])
  then have m: "map snd (new_invocations ?w ?w') = [context_TODO, context_TODO]"
    by (simp add: n)
  let ?v = "\<lparr>user = [], invocations = []\<rparr> :: Context list world"
  let ?tm = "\<lambda>(ctx :: Context) (w :: unit) (r :: unit) s. (Inr () :: error + unit, s @ [ctx])"
  have v: "valid_slice (snd spies) (constructors (fst spies))"
    by (rule spies_elems)
  have "valid_slice (snd spies) (constructors (fst spies)) \<longrightarrow>
      (\<forall>ctx'.
         outcome (ThenContext (snd spies) (fst spies) (Some ?tm) ?v) =
           spec_nested ctx' (map (at_context TODO) (slice_elems (snd spies) (constructors (fst spies))))
             (Some ?tm) (user ?v) \<and>
         outcome (Then (snd spies) (fst spies) (Some ?tm) ?v) =
           adapted TODO
             (spec_nested ctx' (map (at_context TODO) (slice_elems (snd spies) (constructors (fst spies))))
                (Some ?tm) (user ?v)))"
    using one_context_per_fold [of ?v "snd spies" "fst spies" "Some ?tm" ?tm]
    by (elim conjE)
  with v have "\<forall>ctx'.
         outcome (ThenContext (snd spies) (fst spies) (Some ?tm) ?v) =
           spec_nested ctx' (map (at_context TODO) (slice_elems (snd spies) (constructors (fst spies))))
             (Some ?tm) (user ?v) \<and>
         outcome (Then (snd spies) (fst spies) (Some ?tm) ?v) =
           adapted TODO
             (spec_nested ctx' (map (at_context TODO) (slice_elems (snd spies) (constructors (fst spies))))
                (Some ?tm) (user ?v))"
    by (rule rev_mp)
  then have "outcome (Then (snd spies) (fst spies) (Some ?tm) ?v) =
           adapted TODO
             (spec_nested Background
                (map (at_context TODO) (slice_elems (snd spies) (constructors (fst spies))))
                (Some ?tm) (user ?v))"
    by blast
  then have o: "outcome (Then (snd spies) (fst spies) spy_endpoint ?v) =
           (Inr (http_HandlerFunc (CtxHandlerToHandlerFunc TODO spy_endpoint)), [TODO, TODO])"
    by (simp add: spies_elems(1) spy_endpoint_def spy_def at_context_def call_constructor_def
          adapted_def)
  have u: "user (snd (Then (snd spies) (fst spies) spy_endpoint ?v)) = [TODO, TODO]"
    using o by (simp add: outcome_def)
  have "fst (Then (snd spies) (fst spies) spy_endpoint ?v) =
        Inr (http_HandlerFunc (CtxHandlerToHandlerFunc TODO spy_endpoint))"
    using o by (simp add: outcome_def)
  then have r: "(case fst (Then (snd spies) (fst spies) spy_endpoint ?v) of
      Inl e \<Rightarrow> (Inl e, [])
    | Inr p \<Rightarrow> http_Handler_ServeHTTP p () () []) = (Inr (), [TODO])"
    by (simp add: serve_adapter CtxHandler_ServeHTTP_def spy_endpoint_def)
  from n m v u r show ?thesis by (intro conjI)
qed

section \<open>The caller's slice\<close>

text \<open>
  C10. \<open>New(cs...)\<close> and \<open>Append(cs...)\<close> keep no reference to the array of \<open>cs\<close>: after
  the call, assignments through \<open>cs\<close> (or through any slice \<open>t\<close> of the same array) leave
  the constructors of the chain returned as they were, and \<open>Then\<close> and \<open>ThenContext\<close> of
  that chain give the same result and effect before and after the assignments.
\<close>

theorem constructors_are_copied:
  assumes "valid_slice h cs" and "array t = array cs"
  shows "(New cs h = (c, h1) \<and> slice_assigns h1 t ivs = Inr h2 \<longrightarrow>
            slice_elems h2 (constructors c) = slice_elems h cs \<and>
            Then h2 c tm w = Then h1 c tm w \<and>
            ThenContext h2 c tm w = ThenContext h1 c tm w) \<and>
         (valid_slice h (constructors b) \<and> Append b cs h = (c', h1') \<and>
          slice_assigns h1' t ivs = Inr h2' \<longrightarrow>
            slice_elems h2' (constructors c') = slice_elems h (constructors b) @ slice_elems h cs \<and>
            Then h2' c' tm w = Then h1' c' tm w \<and>
            ThenContext h2' c' tm w = ThenContext h1' c' tm w)"
proof (intro conjI impI)
  assume a: "New cs h = (c, h1) \<and> slice_assigns h1 t ivs = Inr h2"
  note n = New_props [OF a [THEN conjunct1]]
  have d: "array (constructors c) = None \<or> array (constructors c) \<noteq> array t"
    using n(4) assms by (auto simp: valid_slice_def split: option.splits)
  note s = slice_assigns_other [OF a [THEN conjunct2] d]
  show e: "slice_elems h2 (constructors c) = slice_elems h cs" using s n(1) by simp
  have v2: "valid_slice h2 (constructors c)" using s n(2) by simp
  have e2: "slice_elems h2 (constructors c) = slice_elems h1 (constructors c)" using s by simp
  show "Then h2 c tm w = Then h1 c tm w" using n(2) v2 e2 by (rule Then_heap)
  show "ThenContext h2 c tm w = ThenContext h1 c tm w" using n(2) v2 e2 by (rule ThenContext_heap)
next
  assume a: "valid_slice h (constructors b) \<and> Append b cs h = (c', h1') \<and>
          slice_assigns h1' t ivs = Inr h2'"
  then have vb: "valid_slice h (constructors b)" and ap: "Append b cs h = (c', h1')"
    and sa: "slice_assigns h1' t ivs = Inr h2'" by simp_all
  note n = Append_props [OF vb assms(1) ap]
  have d: "array (constructors c') = None \<or> array (constructors c') \<noteq> array t"
    using n(4) assms by (auto simp: valid_slice_def split: option.splits)
  note s = slice_assigns_other [OF sa d]
  show "slice_elems h2' (constructors c') = slice_elems h (constructors b) @ slice_elems h cs"
    using s n(1) by simp
  have v2: "valid_slice h2' (constructors c')" using s n(2) by simp
  have e2: "slice_elems h2' (constructors c') = slice_elems h1' (constructors c')" using s by simp
  show "Then h2' c' tm w = Then h1' c' tm w" using n(2) v2 e2 by (rule Then_heap)
  show "ThenContext h2' c' tm w = ThenContext h1' c' tm w" using n(2) v2 e2 by (rule ThenContext_heap)
qed

theorem constructors_are_copied_witness:
  "valid_slice (snd logger_auth) (fst logger_auth_args) \<and>
   (case slice_assigns (snd copy_new) (fst logger_auth_args) [(0, logging ''Evil'')] of
      Inl e \<Rightarrow> False
    | Inr h2 \<Rightarrow>
        slice_elems h2 (fst logger_auth_args) = [logging ''Evil'', logging ''Auth''] \<and>
        slice_elems h2 (constructors (fst copy_new)) = [logging ''Logger'', logging ''Auth''] \<and>
        Then h2 (fst copy_new) (endpoint ''index'') \<lparr>user = [], invocations = []\<rparr> =
        Then (snd copy_new) (fst copy_new) (endpoint ''index'') \<lparr>user = [], invocations = []\<rparr>) \<and>
   (case slice_assigns (snd copy_append) (fst logger_auth_args) [(0, logging ''Evil'')] of
      Inl e \<Rightarrow> False
    | Inr h2 \<Rightarrow>
        slice_elems h2 (fst logger_auth_args) = [logging ''Evil'', logging ''Auth''] \<and>
        slice_elems h2 (constructors (fst copy_append)) =
          [logging ''Logger'', logging ''Auth'', logging ''Logger'', logging ''Auth''] \<and>
        Then h2 (fst copy_append) (endpoint ''index'') \<lparr>user = [], invocations = []\<rparr> =
        Then (snd copy_append) (fst copy_append) (endpoint ''index'') \<lparr>user = [], invocations = []\<rparr>)"
proof -
  let ?cs = "fst logger_auth_args"
  let ?ivs = "[(0, logging ''Evil'')] :: (int \<times> (unit, unit, string list) Constructor) list"
  have cs: "?cs = \<lparr>array = Some 0, offset = 0, len = 2, cap = 2\<rparr>"
    by (simp add: logger_auth_args_def variadic_def empty_heap_def)
  have vargs: "valid_slice (snd logger_auth_args) ?cs"
    unfolding logger_auth_args_def by (rule variadic_valid)
  have eargs: "slice_elems (snd logger_auth_args) ?cs = [logging ''Logger'', logging ''Auth'']"
    unfolding logger_auth_args_def by (rule variadic_elems)
  obtain ys where g: "arrays (snd logger_auth) = arrays (snd logger_auth_args) @ ys"
    using New_props(3) [of ?cs "snd logger_auth_args" "fst logger_auth" "snd logger_auth"]
    by (auto simp: logger_auth_def)
  have v: "valid_slice (snd logger_auth) ?cs" using vargs g by (rule valid_slice_extend)
  have e: "slice_elems (snd logger_auth) ?cs = [logging ''Logger'', logging ''Auth'']"
    using slice_elems_extend [OF vargs g] eargs by simp
  have vb: "valid_slice (snd logger_auth) (constructors (fst logger_auth))"
    by (rule logger_auth_elems)
  obtain h2 where a1: "slice_assigns (snd copy_new) ?cs ?ivs = Inr h2"
    by (simp add: cs slice_assign_def)
  obtain h2' where a2: "slice_assigns (snd copy_append) ?cs ?ivs = Inr h2'"
    by (simp add: cs slice_assign_def)
  have n: "New ?cs (snd logger_auth) = (fst copy_new, snd copy_new)"
    by (simp add: copy_new_def)
  have ap: "Append (fst logger_auth) ?cs (snd logger_auth) = (fst copy_append, snd copy_append)"
    by (simp add: copy_append_def)
  note t = constructors_are_copied [OF v refl, where c = "fst copy_new" and ?h1.0 = "snd copy_new"
      and ivs = ?ivs and ?h2.0 = h2 and b = "fst logger_auth" and c' = "fst copy_append"
      and h1' = "snd copy_append" and h2' = h2' and tm = "endpoint ''index''"
      and w = "\<lparr>user = [], invocations = []\<rparr>"]
  from t n a1 have r1:
    "slice_elems h2 (constructors (fst copy_new)) = [logging ''Logger'', logging ''Auth'']"
    "Then h2 (fst copy_new) (endpoint ''index'') \<lparr>user = [], invocations = []\<rparr> =
     Then (snd copy_new) (fst copy_new) (endpoint ''index'') \<lparr>user = [], invocations = []\<rparr>"
    by (simp_all add: e)
  from t vb ap a2 have r2:
    "slice_elems h2' (constructors (fst copy_append)) =
       [logging ''Logger'', logging ''Auth'', logging ''Logger'', logging ''Auth'']"
    "Then h2' (fst copy_append) (endpoint ''index'') \<lparr>user = [], invocations = []\<rparr> =
     Then (snd copy_append) (fst copy_append) (endpoint ''index'') \<lparr>user = [], invocations = []\<rparr>"
    by (simp_all add: e logger_auth_elems(1))
  obtain zs where gn: "arrays (snd copy_new) = arrays (snd logger_auth) @ zs"
    using New_props(3) [OF n] by blast
  have m1: "slice_elems h2 ?cs = [logging ''Evil'', logging ''Auth'']"
    using slice_assign_self [OF valid_slice_extend [OF v gn], of 0 "logging ''Evil''" h2] a1
      slice_elems_extend [OF v gn]
    by (simp add: e split: sum.splits)
  obtain zs' where ga: "arrays (snd copy_append) = arrays (snd logger_auth) @ zs'"
    using Append_props(3) [OF vb v ap] by blast
  have m2: "slice_elems h2' ?cs = [logging ''Evil'', logging ''Auth'']"
    using slice_assign_self [OF valid_slice_extend [OF v ga], of 0 "logging ''Evil''" h2'] a2
      slice_elems_extend [OF v ga]
    by (simp add: e split: sum.splits)
  show ?thesis
    unfolding a1 a2 using v by (simp add: r1 r2 m1 m2)
qed

end
